theory Spec2Isabelle
  imports Complex_Main "HOL-Library.Product_Lexorder"
begin

section \<open>Strings\<close>

text \<open>
  A JavaScript string is a sequence of code units. The model takes the code units below
  256 (Isabelle's \<open>char\<close>), so the \<open>e\<close> with grave accent of the first target brand
  (U+00E8) is the single character \<open>CHR 0xE8\<close>.
\<close>

text \<open>\<^verbatim>\<open>String.prototype.startsWith\<close>, the test made at each position by \<^verbatim>\<open>includes\<close>.\<close>

fun starts_with :: "string \<Rightarrow> string \<Rightarrow> bool" where
  "starts_with s [] = True"
| "starts_with [] (p # ps) = False"
| "starts_with (c # cs) (p # ps) = (c = p \<and> starts_with cs ps)"

text \<open>\<^verbatim>\<open>s.includes(sub)\<close>: \<open>sub\<close> occurs in \<open>s\<close> at some position.\<close>

fun includes_str :: "string \<Rightarrow> string \<Rightarrow> bool" where
  "includes_str [] sub = (sub = [])"
| "includes_str (c # cs) sub = (starts_with (c # cs) sub \<or> includes_str cs sub)"

text \<open>
  \<^verbatim>\<open>toLowerCase\<close> on one code unit below 256: the letters A to Z and the accented
  capitals U+00C0 to U+00DE (the multiplication sign U+00D7 apart) move up by 32.
\<close>

definition lower_unit :: "char \<Rightarrow> char" where
  "lower_unit c =
     (let n = (of_char c :: nat)
      in if (65 \<le> n \<and> n \<le> 90) \<or> (192 \<le> n \<and> n \<le> 222 \<and> n \<noteq> 215)
         then char_of (n + 32) else c)"

definition toLowerCase :: "string \<Rightarrow> string" where
  "toLowerCase s = map lower_unit s"

section \<open>Numbers\<close>

text \<open>
  A JavaScript number is an IEEE 754 double: not a number, an infinity, or a finite value,
  kept here as the rational it stands for. The two zeros are not told apart: the code
  never divides, and every comparison takes them as equal.
\<close>

datatype jsnum = NaN | PosInf | NegInf | Fin rat

text \<open>The number of binary digits of a positive integer.\<close>

function bits :: "int \<Rightarrow> int" where
  "bits k = (if k \<le> 0 then 0 else 1 + bits (k div 2))"
  by pat_completeness auto
termination
  by (relation "measure nat") auto

definition pow2 :: "int \<Rightarrow> rat" where
  "pow2 k = (if 0 \<le> k then 2 ^ nat k else 1 / 2 ^ nat (- k))"

text \<open>The binary exponent of a positive rational \<open>a\<close>: \<open>pow2 e \<le> a < pow2 (e + 1)\<close>.\<close>

definition floor_log2 :: "rat \<Rightarrow> int" where
  "floor_log2 a = (if 1 \<le> a then bits \<lfloor>a\<rfloor> - 1 else - bits (\<lceil>1 / a\<rceil> - 1))"

definition round_half_even :: "rat \<Rightarrow> int" where
  "round_half_even y =
     (let f = \<lfloor>y\<rfloor>; r = y - of_int f
      in if r < 1 / 2 then f else if 1 / 2 < r then f + 1 else if even f then f else f + 1)"

text \<open>
  Rounding a positive rational to 53 significant binary digits, to nearest and ties to
  even; below the exponent -1022 the spacing stays that of the subnormal numbers.
\<close>

definition round_magnitude :: "rat \<Rightarrow> rat" where
  "round_magnitude a =
     (let e = max (floor_log2 a) (- 1022); ulp = pow2 (e - 52)
      in of_int (round_half_even (a / ulp)) * ulp)"

text \<open>
  The double nearest to a rational: what a numeric literal or a numeric text denotes, and
  what an arithmetic operation gives from its exact result. A rounded magnitude that
  needs an exponent above 1023 overflows to an infinity.
\<close>

definition round_double :: "rat \<Rightarrow> jsnum" where
  "round_double x =
     (if x = 0 then Fin 0
      else
        (let r = round_magnitude \<bar>x\<bar>
         in if 1023 < floor_log2 r then (if 0 < x then PosInf else NegInf)
            else Fin (if 0 < x then r else - r)))"

text \<open>\<^verbatim>\<open>a * b\<close>, \<^verbatim>\<open>a - b\<close> and \<^verbatim>\<open>a > b\<close> on numbers.\<close>

fun js_mul :: "jsnum \<Rightarrow> jsnum \<Rightarrow> jsnum" where
  "js_mul (Fin x) (Fin y) = round_double (x * y)"
| "js_mul NaN b = NaN"
| "js_mul a NaN = NaN"
| "js_mul PosInf (Fin y) = (if y = 0 then NaN else if 0 < y then PosInf else NegInf)"
| "js_mul NegInf (Fin y) = (if y = 0 then NaN else if 0 < y then NegInf else PosInf)"
| "js_mul (Fin x) PosInf = (if x = 0 then NaN else if 0 < x then PosInf else NegInf)"
| "js_mul (Fin x) NegInf = (if x = 0 then NaN else if 0 < x then NegInf else PosInf)"
| "js_mul PosInf PosInf = PosInf"
| "js_mul PosInf NegInf = NegInf"
| "js_mul NegInf PosInf = NegInf"
| "js_mul NegInf NegInf = PosInf"

fun js_sub :: "jsnum \<Rightarrow> jsnum \<Rightarrow> jsnum" where
  "js_sub (Fin x) (Fin y) = round_double (x - y)"
| "js_sub NaN b = NaN"
| "js_sub a NaN = NaN"
| "js_sub PosInf PosInf = NaN"
| "js_sub NegInf NegInf = NaN"
| "js_sub PosInf b = PosInf"
| "js_sub NegInf b = NegInf"
| "js_sub (Fin x) PosInf = NegInf"
| "js_sub (Fin x) NegInf = PosInf"

fun js_gt :: "jsnum \<Rightarrow> jsnum \<Rightarrow> bool" where
  "js_gt (Fin x) (Fin y) = (y < x)"
| "js_gt NaN b = False"
| "js_gt a NaN = False"
| "js_gt a PosInf = False"
| "js_gt NegInf b = False"
| "js_gt PosInf b = True"
| "js_gt (Fin x) NegInf = True"

text \<open>
  \<^verbatim>\<open>Number(v)\<close> for what a value denotes: a decimal number reads as the nearest double.
\<close>

fun to_number :: "jsnum \<Rightarrow> jsnum" where
  "to_number (Fin x) = round_double x"
| "to_number v = v"

section \<open>The hunter engine: valuation\<close>

record scale_entry =
  label :: string
  multiplier :: jsnum
  action :: string

text \<open>
  \<^verbatim>\<open>CONDITION_SCALE\<close>. Each multiplier is the double nearest to the decimal fraction
  that the source writes.
\<close>

definition CONDITION_SCALE :: "(nat \<times> scale_entry) list" where
  "CONDITION_SCALE =
     [(1, \<lparr>label = ''Junk/Salvage'', multiplier = round_double (10 / 100), action = ''PART_OUT''\<rparr>),
      (2, \<lparr>label = ''Fair/Needs Work'', multiplier = round_double (40 / 100), action = ''REFURBISH''\<rparr>),
      (3, \<lparr>label = ''Good/Used'', multiplier = round_double (65 / 100), action = ''FLIP_AS_IS''\<rparr>),
      (4, \<lparr>label = ''Excellent/Like New'', multiplier = round_double (85 / 100), action = ''PREMIUM_LIST''\<rparr>),
      (5, \<lparr>label = ''Mint/NIB'', multiplier = round_double (100 / 100), action = ''HOLD_FOR_APPRECIATION''\<rparr>)]"

definition TARGET_BRANDS :: "string list" where
  "TARGET_BRANDS =
     [''Herm'' @ [CHR 0xE8] @ ''s'', ''Chanel'', ''Louis Vuitton'', ''Gucci'', ''Prada'', ''Dior'',
      ''Goyard'', ''Bottega Veneta'', ''Celine'', ''Balenciaga'', ''Fendi'', ''Saint Laurent'',
      ''Valentino'', ''Givenchy'', ''Burberry'', ''Chloe'', ''Loewe'', ''Miu Miu'',
      ''Salvatore Ferragamo'', ''Versace'']"

text \<open>\<^verbatim>\<open>NexusHunter.calculateCondition\<close>: the first keyword test that succeeds decides.\<close>

definition calculateCondition :: "string \<Rightarrow> nat" where
  "calculateCondition rawCondition =
     (let text = toLowerCase rawCondition
      in if includes_str text ''new'' \<or> includes_str text ''mint'' then 5
         else if includes_str text ''excellent'' then 4
         else if includes_str text ''good'' \<or> includes_str text ''used'' then 3
         else if includes_str text ''fair'' \<or> includes_str text ''parts'' then 2
         else 1)"

text \<open>\<^verbatim>\<open>NexusHunter.getBaseValue\<close>.\<close>

definition getBaseValue :: "string \<Rightarrow> jsnum" where
  "getBaseValue brand =
     (let highTier = [''Herm'' @ [CHR 0xE8] @ ''s'', ''Chanel'']
      in if brand \<in> set highTier then Fin 5000 else Fin 1500)"

text \<open>What the specification calls containing a keyword: the keyword is a contiguous part.\<close>

definition contains :: "string \<Rightarrow> string \<Rightarrow> bool" where
  "contains s sub = (\<exists>u v. s = u @ sub @ v)"


text \<open>
  The admission test of the sweep, \<^verbatim>\<open>estValue > listedPrice * 1.3\<close> (the 30 per cent
  margin threshold): the product is a double, and so is the literal 1.3.
\<close>

definition admitted :: "jsnum \<Rightarrow> jsnum \<Rightarrow> bool" where
  "admitted estValue listedPrice = js_gt estValue (js_mul listedPrice (round_double (13 / 10)))"

section \<open>Exceptions\<close>

text \<open>A thrown value: an \<^verbatim>\<open>Error\<close> with its message, or anything else.\<close>

datatype exn = Error string | Thrown

section \<open>The proxy fleet commander\<close>

datatype node_status = UNTESTED | ACTIVE | DEAD

text \<open>\<^verbatim>\<open>ProxyNode\<close>.\<close>

record ProxyNode =
  node_id :: string
  ip :: string
  port :: jsnum
  protocol :: string
  status :: node_status
  latency :: "int option"
  fail_count :: nat
  last_tested :: string

subsection \<open>scrapeSources\<close>

text \<open>\<^verbatim>\<open>s.split(sep)\<close> for a separator of one code unit.\<close>

fun split_on :: "char \<Rightarrow> string \<Rightarrow> string list" where
  "split_on sep [] = [[]]"
| "split_on sep (c # cs) =
     (if c = sep then [] # split_on sep cs
      else (case split_on sep cs of [] \<Rightarrow> [[c]] | l # ls \<Rightarrow> (c # l) # ls))"

text \<open>
  The white space and line terminators that \<^verbatim>\<open>trim\<close> removes, among the code units
  below 256: TAB, LF, VT, FF, CR, SPACE and NO-BREAK SPACE.
\<close>

definition is_space :: "char \<Rightarrow> bool" where
  "is_space c = ((of_char c :: nat) \<in> {9, 10, 11, 12, 13, 32, 160})"

definition trim :: "string \<Rightarrow> string" where
  "trim s = rev (dropWhile is_space (rev (dropWhile is_space s)))"

text \<open>\<^verbatim>\<open>\d\<close>: an ASCII digit.\<close>

definition is_digit :: "char \<Rightarrow> bool" where
  "is_digit c = (48 \<le> (of_char c :: nat) \<and> (of_char c :: nat) \<le> 57)"

text \<open>
  The regular expressions the source uses: \<^verbatim>\<open>\d\<close>, a literal character, a sequence and
  the bounded repetition \<^verbatim>\<open>r{m,n}\<close>.
\<close>

datatype regex = Digit | Lit char | Seq regex regex | Repeat regex nat nat

text \<open>
  A backtracking matcher: \<open>match_rx r s\<close> lists what remains of \<open>s\<close> after each way of
  matching \<open>r\<close> at its start.
\<close>

function match_rx :: "regex \<Rightarrow> string \<Rightarrow> string list" where
  "match_rx Digit s = (case s of [] \<Rightarrow> [] | c # cs \<Rightarrow> if is_digit c then [cs] else [])"
| "match_rx (Lit a) s = (case s of [] \<Rightarrow> [] | c # cs \<Rightarrow> if c = a then [cs] else [])"
| "match_rx (Seq r1 r2) s = concat (map (match_rx r2) (match_rx r1 s))"
| "match_rx (Repeat r m 0) s = (if m = 0 then [s] else [])"
| "match_rx (Repeat r m (Suc n)) s =
     concat (map (match_rx (Repeat r (m - 1) n)) (match_rx r s)) @ (if m = 0 then [s] else [])"
  by pat_completeness auto
termination
  by (relation "measures [\<lambda>(r, s). size r, \<lambda>(r, s). (case r of Repeat _ _ n \<Rightarrow> n | _ \<Rightarrow> 0)]")
     auto

text \<open>\<^verbatim>\<open>/^r$/.test(s)\<close>: some way of matching \<open>r\<close> uses up the whole of \<open>s\<close>.\<close>

definition regex_test :: "regex \<Rightarrow> string \<Rightarrow> bool" where
  "regex_test r s = ([] \<in> set (match_rx r s))"

text \<open>\<^verbatim>\<open>/^(\d{1,3}\.){3}\d{1,3}:\d{2,5}$/\<close>\<close>

definition proxyRegex :: regex where
  "proxyRegex =
     Seq (Repeat (Seq (Repeat Digit 1 3) (Lit CHR ''.'')) 3 3)
       (Seq (Repeat Digit 1 3) (Seq (Lit CHR '':'') (Repeat Digit 2 5)))"

text \<open>What one source answers: the text of the list, or a failure of the request.\<close>

datatype source_outcome = Fetched string | SourceFailed

text \<open>\<^verbatim>\<open>rawProxies.add(clean)\<close> on a set kept in insertion order.\<close>

definition set_add :: "string list \<Rightarrow> string \<Rightarrow> string list" where
  "set_add rawProxies clean = (if clean \<in> set rawProxies then rawProxies else rawProxies @ [clean])"

text \<open>The body of \<^verbatim>\<open>lines.forEach\<close>.\<close>

definition add_line :: "string list \<Rightarrow> string \<Rightarrow> string list" where
  "add_line rawProxies line =
     (let clean = trim line
      in if regex_test proxyRegex clean then set_add rawProxies clean else rawProxies)"

text \<open>One fetch promise: a failed source is logged and adds nothing.\<close>

definition scrape_source :: "string list \<Rightarrow> source_outcome \<Rightarrow> string list" where
  "scrape_source rawProxies res =
     (case res of
        SourceFailed \<Rightarrow> rawProxies
      | Fetched data \<Rightarrow> foldl add_line rawProxies (split_on CHR 0x0A data))"

text \<open>
  \<^verbatim>\<open>ProxyCommander.scrapeSources\<close>. The argument lists what the sources answered, in the
  order in which the concurrent fetches complete.
\<close>

definition scrapeSources :: "source_outcome list \<Rightarrow> string list" where
  "scrapeSources responses = foldl scrape_source [] responses"

subsection \<open>The pattern of scrapeSources, declaratively\<close>

text \<open>The strings a regular expression matches.\<close>

fun lang_pow :: "string set \<Rightarrow> nat \<Rightarrow> string set" where
  "lang_pow L 0 = {[]}"
| "lang_pow L (Suc k) = {u @ v | u v. u \<in> L \<and> v \<in> lang_pow L k}"

fun lang :: "regex \<Rightarrow> string set" where
  "lang Digit = {[c] | c. is_digit c}"
| "lang (Lit a) = {[a]}"
| "lang (Seq r1 r2) = {u @ v | u v. u \<in> lang r1 \<and> v \<in> lang r2}"
| "lang (Repeat r m n) = (\<Union>k \<in> {m..n}. lang_pow (lang r) k)"

text \<open>
  The pattern in the words of the specification: four dot-separated octets of 1 to 3
  digits, a colon, and a port of 2 to 5 digits.
\<close>

definition octet :: "string \<Rightarrow> bool" where
  "octet a = (1 \<le> length a \<and> length a \<le> 3 \<and> (\<forall>c \<in> set a. is_digit c))"

definition ip_port_pattern :: "string \<Rightarrow> bool" where
  "ip_port_pattern s =
     (\<exists>a b c d p. s = a @ ''.'' @ b @ ''.'' @ c @ ''.'' @ d @ '':'' @ p \<and>
        octet a \<and> octet b \<and> octet c \<and> octet d \<and>
        2 \<le> length p \<and> length p \<le> 5 \<and> (\<forall>ch \<in> set p. is_digit ch))"


text \<open>The text of a proxy list, with padded, repeated and malformed lines.\<close>

definition sample_list :: string where
  "sample_list =
     ''999.1.1.1:80'' @ [CHR 0x0A] @ ''  10.0.0.1:8080 '' @ [CHR 0x0D, CHR 0x0A] @
     ''# comment'' @ [CHR 0x0A] @ ''10.0.0.1:8080'' @ [CHR 0x0A] @ ''1.2.3:80'' @ [CHR 0x0A]"


subsection \<open>validateBatch\<close>

text \<open>
  \<^verbatim>\<open>parseInt(s, 10)\<close>: leading white space, an optional sign, then the longest run of
  digits, read as the nearest double; \<^verbatim>\<open>NaN\<close> when there is no digit.
\<close>

definition digits_value :: "string \<Rightarrow> int" where
  "digits_value ds = foldl (\<lambda>acc c. 10 * acc + ((of_char c :: int) - 48)) 0 ds"

definition parseInt10 :: "string \<Rightarrow> jsnum" where
  "parseInt10 s =
     (let s1 = dropWhile is_space s;
          negative = (case s1 of [] \<Rightarrow> False | c # _ \<Rightarrow> c = CHR ''-'');
          s2 = (case s1 of [] \<Rightarrow> [] | c # cs \<Rightarrow> if c = CHR ''-'' \<or> c = CHR ''+'' then cs else s1);
          ds = takeWhile is_digit s2
      in if ds = [] then NaN
         else round_double
           (if negative then - of_int (digits_value ds) else of_int (digits_value ds)))"

text \<open>
  What the probe through one candidate proxy gives: the request succeeded within the
  5 second timeout, with the time it took in milliseconds, or it failed in any way.
\<close>

datatype probe_outcome = ProbeOk int | ProbeFailed

text \<open>The probes of one run, by the position of the candidate in the input.\<close>

record probe_world =
  probe :: "nat \<Rightarrow> probe_outcome"
  tested_at :: "nat \<Rightarrow> string"

text \<open>The check of one candidate (the callback of \<^verbatim>\<open>chunk.map\<close>).\<close>

definition check_proxy :: "probe_outcome \<Rightarrow> string \<Rightarrow> string \<Rightarrow> ProxyNode" where
  "check_proxy outcome now proxyStr =
     (let parts = split_on CHR '':'' proxyStr;
          ipStr = (case parts of [] \<Rightarrow> [] | a # _ \<Rightarrow> a);
          portNum = (case parts of _ # portStr # _ \<Rightarrow> parseInt10 portStr | _ \<Rightarrow> NaN)
      in case outcome of
           ProbeOk elapsed \<Rightarrow>
             \<lparr>node_id = proxyStr, ip = ipStr, port = portNum, protocol = ''http'',
              status = ACTIVE, latency = Some elapsed, fail_count = 0, last_tested = now\<rparr>
         | ProbeFailed \<Rightarrow>
             \<lparr>node_id = proxyStr, ip = ipStr, port = portNum, protocol = ''http'',
              status = DEAD, latency = None, fail_count = 1, last_tested = now\<rparr>)"

text \<open>
  The loop of \<^verbatim>\<open>validateBatch\<close> over chunks of \<open>concurrency\<close> candidates, from index
  \<open>i\<close>. With \<open>concurrency = 0\<close> the index never advances: the loop need not return.
\<close>

partial_function (option) validateBatch_from ::
  "probe_world \<Rightarrow> string list \<Rightarrow> nat \<Rightarrow> nat \<Rightarrow> ProxyNode list \<Rightarrow> ProxyNode list option" where
  "validateBatch_from w proxies concurrency i results =
     (if i < length proxies then
        (let chunk = take concurrency (drop i proxies);
             chunkResults =
               map (\<lambda>(k, proxyStr). check_proxy (probe w k) (tested_at w k) proxyStr)
                 (enumerate i chunk)
         in validateBatch_from w proxies concurrency (i + concurrency) (results @ chunkResults))
      else Some results)"

definition validateBatch :: "probe_world \<Rightarrow> string list \<Rightarrow> nat \<Rightarrow> ProxyNode list option" where
  "validateBatch w proxies concurrency = validateBatch_from w proxies concurrency 0 []"

subsection \<open>syncToDatabase\<close>

text \<open>The table \<^verbatim>\<open>nexus_proxies\<close>, keyed by \<^verbatim>\<open>id\<close>.\<close>

type_synonym proxy_table = "string \<rightharpoonup> ProxyNode"

definition upsert :: "proxy_table \<Rightarrow> ProxyNode list \<Rightarrow> proxy_table" where
  "upsert table chunk = foldl (\<lambda>t n. t(node_id n \<mapsto> n)) table chunk"

text \<open>
  The loop of \<^verbatim>\<open>syncToDatabase\<close>: chunks of 1000; \<open>fails i\<close> says that the store refuses
  the chunk starting at \<open>i\<close>, which is logged and leaves the table as it was.
\<close>

function syncToDatabase_from ::
  "(nat \<Rightarrow> bool) \<Rightarrow> ProxyNode list \<Rightarrow> nat \<Rightarrow> proxy_table \<Rightarrow> proxy_table" where
  "syncToDatabase_from fails nodes i table =
     (if i < length nodes then
        (let chunk = take 1000 (drop i nodes)
         in syncToDatabase_from fails nodes (i + 1000)
              (if fails i then table else upsert table chunk))
      else table)"
  by pat_completeness auto
termination
  by (relation "measure (\<lambda>(fails, nodes, i, table). length nodes - i)") auto

definition syncToDatabase :: "(nat \<Rightarrow> bool) \<Rightarrow> ProxyNode list \<Rightarrow> proxy_table \<Rightarrow> proxy_table" where
  "syncToDatabase fails nodes table = syncToDatabase_from fails nodes 0 table"

subsection \<open>getOptimalProxy\<close>

text \<open>What a query of the store answers: \<^verbatim>\<open>{ data, error }\<close>.\<close>

record 'a query_response =
  data :: "'a option"
  error :: "string option"

text \<open>
  The query of \<^verbatim>\<open>getOptimalProxy\<close>, step by step, over the rows of the table:
  \<^verbatim>\<open>.eq('status', 'ACTIVE')\<close>, \<^verbatim>\<open>.order('latency', { ascending: true })\<close> (an ascending
  order puts the rows without latency last), \<^verbatim>\<open>.limit(1)\<close> and \<^verbatim>\<open>.single()\<close>, which
  is an error unless exactly one row is left.
\<close>

definition eq_status :: "node_status \<Rightarrow> ProxyNode list \<Rightarrow> ProxyNode list" where
  "eq_status v rows = filter (\<lambda>n. status n = v) rows"

definition latency_key :: "ProxyNode \<Rightarrow> bool \<times> int" where
  "latency_key n = (case latency n of None \<Rightarrow> (True, 0) | Some l \<Rightarrow> (False, l))"

definition order_latency :: "ProxyNode list \<Rightarrow> ProxyNode list" where
  "order_latency rows = sort_key latency_key rows"

definition limit :: "nat \<Rightarrow> ProxyNode list \<Rightarrow> ProxyNode list" where
  "limit k rows = take k rows"

definition single :: "ProxyNode list \<Rightarrow> ProxyNode query_response" where
  "single rows =
     (case rows of
        [r] \<Rightarrow> \<lparr>data = Some r, error = None\<rparr>
      | _ \<Rightarrow> \<lparr>data = None, error = Some ''PGRST116''\<rparr>)"

definition optimal_query :: "ProxyNode list \<Rightarrow> ProxyNode query_response" where
  "optimal_query rows = single (limit 1 (order_latency (eq_status ACTIVE rows)))"

text \<open>\<^verbatim>\<open>ProxyCommander.getOptimalProxy\<close>, on the answer of the store.\<close>

definition getOptimalProxy :: "ProxyNode query_response \<Rightarrow> ProxyNode option" where
  "getOptimalProxy response =
     (if error response \<noteq> None \<or> data response = None then None else data response)"

section \<open>The hunter engine: fetching\<close>

text \<open>
  One listing of the marketplace answer; \<open>None\<close> is a field that is missing. The price
  is what \<^verbatim>\<open>price.value\<close> denotes when it is there and truthy: a decimal number as it is
  written (not yet rounded to a double), an infinity, or not a number.
\<close>

record item =
  itemId :: string
  title :: "string option"
  condition :: "string option"
  price_value :: "jsnum option"
  itemWebUrl :: string

text \<open>The object of an answer: of the marketplace, or made up by the browser bypass.\<close>

record payload =
  itemSummaries :: "item list option"
  rawHtml :: "string option"

text \<open>
  The data of a response, which is also what a fetch returns: \<^verbatim>\<open>null\<close>, a string, number
  or boolean (by its text), or an object.
\<close>

datatype response_data = Null | Scalar string | Object payload

text \<open>\<^verbatim>\<open>this.proxyConfig\<close>.\<close>

record proxy_config =
  host :: string
  proxy_port :: jsnum
  auth :: "(string \<times> string) option"

text \<open>
  One \<^verbatim>\<open>axios.get\<close>: it resolves with the data of the response, whatever it is, or it
  is rejected, with the HTTP status of \<^verbatim>\<open>error.response\<close> when there is one (a timeout
  has none).
\<close>

datatype http_outcome = Resolved response_data | Rejected "nat option"

text \<open>
  One headless browser session: whether the launch succeeds, whether the steps on the
  page all succeed, the content of the page, and the error of \<^verbatim>\<open>browser.close()\<close> if
  closing fails.
\<close>

record browser_run =
  launch_ok :: bool
  page_ok :: bool
  content :: string
  close_error :: "exn option"

text \<open>What the network does at each attempt of one fetch.\<close>

record fetch_world =
  http :: "nat \<Rightarrow> http_outcome"
  browser :: "nat \<Rightarrow> browser_run"

text \<open>
  What a fetch does that can be observed, in order: the request of an attempt, the call
  of the browser bypass at an attempt, and a backoff delay in milliseconds.
\<close>

datatype event = Get nat | Bypass nat | Sleep nat

text \<open>
  \<^verbatim>\<open>NexusHunter.scrapeWithPlaywright\<close>. A failure of the launch or on the page is caught
  and gives no data; \<^verbatim>\<open>finally\<close> closes a launched browser, and a failure there
  replaces the result.
\<close>

definition scrapeWithPlaywright :: "browser_run \<Rightarrow> string \<Rightarrow> exn + payload option" where
  "scrapeWithPlaywright run url =
     (if \<not> launch_ok run then Inr None
      else
        (let outcome =
               (if \<not> page_ok run then None
                else if includes_str url ''ebay'' then
                  Some \<lparr>itemSummaries = Some [], rawHtml = None\<rparr>
                else
                  Some \<lparr>itemSummaries = None, rawHtml = Some (take 500 (content run) @ ''...'')\<rparr>)
         in case close_error run of None \<Rightarrow> Inr outcome | Some e \<Rightarrow> Inl e))"

text \<open>The statuses taken as a bot defence: 403 Forbidden and 503 Service Unavailable.\<close>

definition waf_status :: "nat option \<Rightarrow> bool" where
  "waf_status code = (code = Some 403 \<or> code = Some 503)"

text \<open>How the \<^verbatim>\<open>catch\<close> block of one attempt ends.\<close>

datatype control = Return response_data | Throw exn | Continue

text \<open>
  The \<^verbatim>\<open>catch\<close> block of \<^verbatim>\<open>safeApiCall\<close> at one attempt: the bypass on status 403 or
  503, then the end of the retries, then the backoff.
\<close>

definition on_rejected ::
  "fetch_world \<Rightarrow> string \<Rightarrow> nat \<Rightarrow> nat \<Rightarrow> nat option \<Rightarrow> control \<times> event list" where
  "on_rejected w url retries attempt code =
     (let after = (\<lambda>evs.
            if attempt = retries then (Return Null, evs)
            else (Continue, evs @ [Sleep (1000 * 2 ^ (attempt - 1))]))
      in if waf_status code then
           (case scrapeWithPlaywright (browser w attempt) url of
              Inl e \<Rightarrow> (Throw e, [Bypass attempt])
            | Inr (Some bypassData) \<Rightarrow> (Return (Object bypassData), [Bypass attempt])
            | Inr None \<Rightarrow> after [Bypass attempt])
         else after [])"

definition emit :: "event list \<Rightarrow> 'a \<times> event list \<Rightarrow> 'a \<times> event list" where
  "emit evs r = (fst r, evs @ snd r)"

text \<open>The loop of \<^verbatim>\<open>safeApiCall\<close> from one attempt on: the result and the events.\<close>

function safeApiCall_from ::
  "fetch_world \<Rightarrow> string \<Rightarrow> nat \<Rightarrow> nat \<Rightarrow> (exn + response_data) \<times> event list" where
  "safeApiCall_from w url retries attempt =
     (if attempt \<le> retries then
        (case http w attempt of
           Resolved d \<Rightarrow> (Inr d, [Get attempt])
         | Rejected code \<Rightarrow>
             (case on_rejected w url retries attempt code of
                (Return r, evs) \<Rightarrow> (Inr r, Get attempt # evs)
              | (Throw e, evs) \<Rightarrow> (Inl e, Get attempt # evs)
              | (Continue, evs) \<Rightarrow>
                  emit (Get attempt # evs) (safeApiCall_from w url retries (Suc attempt))))
      else (Inr Null, []))"
  by pat_completeness auto
termination
  by (relation "measure (\<lambda>(w, url, retries, attempt). Suc retries - attempt)") auto

text \<open>\<^verbatim>\<open>NexusHunter.safeApiCall\<close>: the attempts are counted from 1.\<close>

definition safeApiCall ::
  "fetch_world \<Rightarrow> string \<Rightarrow> nat \<Rightarrow> (exn + response_data) \<times> event list" where
  "safeApiCall w url retries = safeApiCall_from w url retries 1"

text \<open>The requests, the bypass calls and the delays among the events, in order.\<close>

fun requests :: "event list \<Rightarrow> nat list" where
  "requests [] = []"
| "requests (Get n # es) = n # requests es"
| "requests (e # es) = requests es"

fun bypasses :: "event list \<Rightarrow> nat list" where
  "bypasses [] = []"
| "bypasses (Bypass n # es) = n # bypasses es"
| "bypasses (e # es) = bypasses es"

fun delays :: "event list \<Rightarrow> nat list" where
  "delays [] = []"
| "delays (Sleep ms # es) = ms # delays es"
| "delays (e # es) = delays es"

text \<open>
  Networks to run a fetch on: every request times out; every request is answered by 403
  and no browser can be launched; every request is answered by 403 and the browser
  session goes well; the first request is answered by 403, no browser can be launched,
  and the later requests are answered by 200 with the body \<^verbatim>\<open>null\<close>.
\<close>

definition no_browser :: browser_run where
  "no_browser = \<lparr>launch_ok = False, page_ok = False, content = [], close_error = None\<rparr>"

definition good_browser :: browser_run where
  "good_browser =
     \<lparr>launch_ok = True, page_ok = True, content = ''<html></html>'', close_error = None\<rparr>"

definition timeouts_world :: fetch_world where
  "timeouts_world = \<lparr>http = (\<lambda>n. Rejected None), browser = (\<lambda>n. no_browser)\<rparr>"

definition blocked_world :: fetch_world where
  "blocked_world = \<lparr>http = (\<lambda>n. Rejected (Some 403)), browser = (\<lambda>n. no_browser)\<rparr>"

definition rescued_world :: fetch_world where
  "rescued_world = \<lparr>http = (\<lambda>n. Rejected (Some 403)), browser = (\<lambda>n. good_browser)\<rparr>"

definition null_body_world :: fetch_world where
  "null_body_world =
     \<lparr>http = (\<lambda>n. if n = 1 then Rejected (Some 403) else Resolved Null),
      browser = (\<lambda>n. no_browser)\<rparr>"

section \<open>The hunter engine: the sweep\<close>

datatype signal_status = PENDING | EXECUTED | REJECTED

record MarketSignal =
  signal_id :: string
  source :: string
  targetName :: string
  brandCategory :: string
  conditionScore :: nat
  listedPrice :: jsnum
  estimatedValue :: jsnum
  profitMargin :: jsnum
  url :: string
  signal_status :: signal_status
  timestamp :: string

text \<open>\<^verbatim>\<open>item.condition || 'used'\<close>: a missing or empty condition reads as used.\<close>

definition condition_text :: "item \<Rightarrow> string" where
  "condition_text it =
     (case condition it of None \<Rightarrow> ''used'' | Some c \<Rightarrow> if c = [] then ''used'' else c)"

text \<open>\<^verbatim>\<open>Number(item.price?.value || 0)\<close>: a missing price reads as 0.\<close>

definition listed_price :: "item \<Rightarrow> jsnum" where
  "listed_price it = (case price_value it of None \<Rightarrow> Fin 0 | Some v \<Rightarrow> to_number v)"

text \<open>The \<^verbatim>\<open>TypeError\<close> of reading a property of \<^verbatim>\<open>undefined\<close>.\<close>

definition type_error :: "string \<Rightarrow> exn" where
  "type_error prop =
     Error (''Cannot read properties of undefined (reading '' @ [CHR 0x27] @ prop @ [CHR 0x27] @ '')'')"

text \<open>
  The body of the loop over \<^verbatim>\<open>itemSummaries\<close>: the signal pushed for one listing, if any.
  Reading the title of a listing that has none throws. Every target brand is a non-empty
  string, so a brand that is found passes \<^verbatim>\<open>if (brandMatch)\<close>.
\<close>

definition evaluate_item :: "string \<Rightarrow> item \<Rightarrow> exn + MarketSignal option" where
  "evaluate_item now it =
     (case title it of
        None \<Rightarrow> Inl (type_error ''includes'')
      | Some t \<Rightarrow>
          (case find (\<lambda>b. includes_str t b) TARGET_BRANDS of
             None \<Rightarrow> Inr None
           | Some brandMatch \<Rightarrow>
               (let cond = calculateCondition (condition_text it)
                in case map_of CONDITION_SCALE cond of
                     None \<Rightarrow> Inl (type_error ''multiplier'')
                   | Some entry \<Rightarrow>
                       (let estValue = js_mul (getBaseValue brandMatch) (multiplier entry);
                            price = listed_price it
                        in if admitted estValue price then
                             Inr (Some \<lparr>signal_id = ''EBAY-'' @ itemId it, source = ''eBay'',
                               targetName = t, brandCategory = brandMatch, conditionScore = cond,
                               listedPrice = price, estimatedValue = estValue,
                               profitMargin = js_sub estValue price, url = itemWebUrl it,
                               signal_status = PENDING, timestamp = now\<rparr>)
                           else Inr None))))"

text \<open>The loop over the listings; \<open>clock i\<close> is the time read at the \<open>i\<close>-th listing.\<close>

fun process_items :: "(nat \<Rightarrow> string) \<Rightarrow> nat \<Rightarrow> item list \<Rightarrow> exn + MarketSignal list" where
  "process_items clock i [] = Inr []"
| "process_items clock i (it # items) =
     (case evaluate_item (clock i) it of
        Inl e \<Rightarrow> Inl e
      | Inr pushed \<Rightarrow>
          (case process_items clock (Suc i) items of
             Inl e \<Rightarrow> Inl e
           | Inr signals \<Rightarrow> Inr (case pushed of None \<Rightarrow> signals | Some s \<Rightarrow> s # signals)))"

text \<open>A record of the table \<^verbatim>\<open>nexus_logs\<close>.\<close>

record log_record =
  level :: string
  message :: string
  logged_at :: string

text \<open>
  Everything outside the engine that one sweep meets: whether the store URL and key are
  both set, the error that \<^verbatim>\<open>createClient\<close> throws on them if it refuses them (a
  malformed URL), the proxy configuration of the environment, the answer of the store to
  the query of \<^verbatim>\<open>getOptimalProxy\<close>, the network as seen through a proxy configuration,
  the clocks, and the error of the insert into \<^verbatim>\<open>nexus_signals\<close> if it fails.
\<close>

record sweep_world =
  credentials :: bool
  client_error :: "exn option"
  env_proxy :: proxy_config
  proxy_answer :: "ProxyNode query_response"
  network :: "proxy_config \<Rightarrow> fetch_world"
  clock :: "nat \<Rightarrow> string"
  log_clock :: string
  insert_error :: "string option"

text \<open>
  What one sweep does: the value it returns (\<open>Inl\<close>: the exception reaches the caller),
  the lines of \<^verbatim>\<open>console.error\<close> of its \<^verbatim>\<open>catch\<close> block, the records it inserts into
  \<^verbatim>\<open>nexus_logs\<close> and \<^verbatim>\<open>nexus_signals\<close>, and the events of its fetch.
\<close>

record sweep_outcome =
  returned :: "exn + MarketSignal list"
  console_errors :: "string list"
  logs_inserted :: "log_record list"
  signals_inserted :: "MarketSignal list"
  fetch_events :: "event list"

text \<open>
  \<^verbatim>\<open>getSupabase\<close>, of the engine and of the commander (they differ in the message): it
  throws when a credential is missing, and \<^verbatim>\<open>createClient\<close> may throw on its own.
\<close>

definition getSupabase :: "bool \<Rightarrow> exn option \<Rightarrow> string \<Rightarrow> exn + unit" where
  "getSupabase creds refused msg =
     (if \<not> creds then Inl (Error msg)
      else case refused of Some e \<Rightarrow> Inl e | None \<Rightarrow> Inr ())"

text \<open>The store client that \<^verbatim>\<open>runSweep\<close> makes first, before its \<^verbatim>\<open>try\<close> block.\<close>

definition store_client :: "sweep_world \<Rightarrow> exn + unit" where
  "store_client w =
     getSupabase (credentials w) (client_error w)
       ''FATAL: Supabase credentials missing. Nexus offline.''"

definition ebay_url :: string where
  "ebay_url = ''https://api.ebay.com/buy/browse/v1/item_summary/search?q=designer+bag''"

text \<open>
  The proxy configuration of a sweep: the best proxy of the fleet, without credentials,
  or else the configuration of the environment.
\<close>

definition sweep_proxy :: "sweep_world \<Rightarrow> proxy_config" where
  "sweep_proxy w =
     (case getOptimalProxy (proxy_answer w) of
        Some p \<Rightarrow> \<lparr>host = ip p, proxy_port = port p, auth = None\<rparr>
      | None \<Rightarrow> env_proxy w)"

text \<open>
  The signals of a response (the block under \<^verbatim>\<open>if (ebayResponse && ebayResponse.itemSummaries)\<close>):
  only an object with item summaries has any.
\<close>

definition response_signals :: "(nat \<Rightarrow> string) \<Rightarrow> response_data \<Rightarrow> exn + MarketSignal list" where
  "response_signals clk response =
     (case response of
        Object p \<Rightarrow>
          (case itemSummaries p of
             None \<Rightarrow> Inr []
           | Some items \<Rightarrow> process_items clk 0 items)
      | _ \<Rightarrow> Inr [])"

text \<open>
  The \<^verbatim>\<open>try\<close> block of \<^verbatim>\<open>runSweep\<close>. The commander makes a store client of its own
  before it asks for the best proxy.
\<close>

definition sweep_try :: "sweep_world \<Rightarrow> (exn + MarketSignal list) \<times> event list" where
  "sweep_try w =
     (case getSupabase (credentials w) (client_error w)
             ''FATAL: Supabase credentials missing. Proxy Commander offline.'' of
        Inl e \<Rightarrow> (Inl e, [])
      | Inr commander \<Rightarrow>
          (let proxyConfig = sweep_proxy w;
               (ebayResponse, evs) = safeApiCall (network w proxyConfig) ebay_url 3
           in case ebayResponse of
                Inl e \<Rightarrow> (Inl e, evs)
              | Inr response \<Rightarrow>
                  (case response_signals (clock w) response of
                     Inl e \<Rightarrow> (Inl e, evs)
                   | Inr signals \<Rightarrow>
                       (if signals \<noteq> [] then
                          (case insert_error w of
                             Some m \<Rightarrow> (Inl (Error (''Supabase Insert Failed: '' @ m)), evs)
                           | None \<Rightarrow> (Inr signals, evs))
                        else (Inr signals, evs)))))"

text \<open>
  \<^verbatim>\<open>NexusHunter.runSweep\<close>. The store client is made before the \<^verbatim>\<open>try\<close> block; the
  \<^verbatim>\<open>catch\<close> block writes to the console and to \<^verbatim>\<open>nexus_logs\<close> and returns no signal.
\<close>

definition runSweep :: "sweep_world \<Rightarrow> sweep_outcome" where
  "runSweep w =
     (case store_client w of
        Inl e \<Rightarrow>
          \<lparr>returned = Inl e, console_errors = [], logs_inserted = [], signals_inserted = [],
           fetch_events = []\<rparr>
      | Inr supabase \<Rightarrow>
          (case sweep_try w of
             (Inr signals, evs) \<Rightarrow>
               \<lparr>returned = Inr signals, console_errors = [], logs_inserted = [],
                signals_inserted = signals, fetch_events = evs\<rparr>
           | (Inl e, evs) \<Rightarrow>
               (let errorMsg = (case e of Error m \<Rightarrow> m | Thrown \<Rightarrow> ''Unknown error'')
                in \<lparr>returned = Inr [],
                    console_errors = [''[CRITICAL FAILURE] Engine Sweep Halted: '' @ errorMsg],
                    logs_inserted = [\<lparr>level = ''ERROR'', message = errorMsg, logged_at = log_clock w\<rparr>],
                    signals_inserted = [], fetch_events = evs\<rparr>)))"

section \<open>Listings and worlds to run a sweep on\<close>

definition chanel_item :: item where
  "chanel_item =
     \<lparr>itemId = ''v1|1'', title = Some ''Chanel Classic Flap'', condition = Some ''New'',
      price_value = Some (Fin 100), itemWebUrl = ''https://www.ebay.com/itm/1''\<rparr>"




definition untitled_item :: item where
  "untitled_item =
     \<lparr>itemId = ''v1|4'', title = None, condition = None, price_value = None, itemWebUrl = []\<rparr>"

definition direct_env :: proxy_config where
  "direct_env = \<lparr>host = [], proxy_port = Fin 80, auth = Some ([], [])\<rparr>"

text \<open>The marketplace answers the first request with the given listings.\<close>

definition listing_world :: "item list \<Rightarrow> sweep_world" where
  "listing_world items =
     \<lparr>credentials = True, client_error = None, env_proxy = direct_env,
      proxy_answer = optimal_query [],
      network = (\<lambda>cfg. \<lparr>http = (\<lambda>n. Resolved (Object \<lparr>itemSummaries = Some items, rawHtml = None\<rparr>)),
                         browser = (\<lambda>n. no_browser)\<rparr>),
      clock = (\<lambda>i. ''2026-01-01T00:00:00.000Z''), log_clock = ''2026-01-01T00:00:01.000Z'',
      insert_error = None\<rparr>"

definition failing_insert_world :: sweep_world where
  "failing_insert_world = (listing_world [chanel_item])\<lparr>insert_error := Some ''timeout''\<rparr>"

definition offline_world :: sweep_world where
  "offline_world = (listing_world [chanel_item])\<lparr>credentials := False\<rparr>"

definition bad_url_world :: sweep_world where
  "bad_url_world =
     (listing_world [chanel_item])
       \<lparr>client_error := Some (Error ''Invalid supabaseUrl: Must be a valid HTTP or HTTPS URL.'')\<rparr>"

definition rescued_sweep_world :: sweep_world where
  "rescued_sweep_world = (listing_world [])\<lparr>network := (\<lambda>cfg. rescued_world)\<rparr>"

section \<open>Fleets and probes to run the commander on\<close>

definition two_probes :: probe_world where
  "two_probes =
     \<lparr>probe = (\<lambda>k. if k = 0 then ProbeOk 120 else ProbeFailed),
      tested_at = (\<lambda>k. ''2026-01-01T00:00:00.000Z'')\<rparr>"

definition fleet_node :: "string \<Rightarrow> node_status \<Rightarrow> int option \<Rightarrow> ProxyNode" where
  "fleet_node name st ms =
     \<lparr>node_id = name, ip = name, port = Fin 8080, protocol = ''http'', status = st,
      latency = ms, fail_count = (if st = ACTIVE then 0 else 1),
      last_tested = ''2026-01-01T00:00:00.000Z''\<rparr>"

definition active_fleet :: "ProxyNode list" where
  "active_fleet =
     [fleet_node ''10.0.0.1'' ACTIVE (Some 50), fleet_node ''10.0.0.2'' ACTIVE (Some 20),
      fleet_node ''10.0.0.3'' ACTIVE (Some 80)]"

definition dead_fleet :: "ProxyNode list" where
  "dead_fleet =
     [fleet_node ''10.0.0.1'' DEAD None, fleet_node ''10.0.0.2'' DEAD None,
      fleet_node ''10.0.0.3'' DEAD None]"

section \<open>Strings: facts\<close>

lemma starts_with_iff: "starts_with s p \<longleftrightarrow> (\<exists>v. s = p @ v)"
  by (induction s p rule: starts_with.induct) auto

lemma includes_iff: "includes_str s sub \<longleftrightarrow> (\<exists>u v. s = u @ sub @ v)"
proof (induction s)
  case Nil
  then show ?case by auto
next
  case (Cons c cs)
  show ?case
  proof
    assume "includes_str (c # cs) sub"
    then consider "starts_with (c # cs) sub" | "includes_str cs sub" by auto
    then show "\<exists>u v. c # cs = u @ sub @ v"
    proof cases
      case 1
      then obtain v where "c # cs = sub @ v" by (auto simp: starts_with_iff)
      then have "c # cs = [] @ sub @ v" by simp
      then show ?thesis by blast
    next
      case 2
      then obtain u v where "cs = u @ sub @ v" using Cons.IH by blast
      then have "c # cs = (c # u) @ sub @ v" by simp
      then show ?thesis by blast
    qed
  next
    assume "\<exists>u v. c # cs = u @ sub @ v"
    then obtain u v where eq: "c # cs = u @ sub @ v" by blast
    show "includes_str (c # cs) sub"
    proof (cases u)
      case Nil
      with eq have "starts_with (c # cs) sub" by (auto simp: starts_with_iff)
      then show ?thesis by simp
    next
      case (Cons a u')
      with eq have "cs = u' @ sub @ v" by simp
      then have "includes_str cs sub" using Cons.IH by blast
      then show ?thesis by simp
    qed
  qed
qed

lemma includes_contains: "includes_str s sub = contains s sub"
  by (simp add: includes_iff contains_def)

section \<open>The fetch loop\<close>


lemma on_rejected_events:
  "on_rejected w u retries a c = (ctl, evs) \<Longrightarrow>
   evs = (if waf_status c then [Bypass a] else []) @
         (if ctl = Continue then [Sleep (1000 * 2 ^ (a - 1))] else [])"
  by (auto simp: on_rejected_def Let_def split: if_splits sum.splits option.splits)

lemma on_rejected_control:
  "on_rejected w u retries a c = (ctl, evs) \<Longrightarrow>
   ctl = (if waf_status c then
            (case scrapeWithPlaywright (browser w a) u of
               Inl e \<Rightarrow> Throw e
             | Inr (Some d) \<Rightarrow> Return (Object d)
             | Inr None \<Rightarrow> if a = retries then Return Null else Continue)
          else if a = retries then Return Null else Continue)"
  by (auto simp: on_rejected_def Let_def split: if_splits sum.splits option.splits)

lemma append_eq_mid:
  "xs @ ys = p @ x # q \<Longrightarrow>
   (\<exists>q'. xs = p @ x # q' \<and> q = q' @ ys) \<or> (\<exists>p'. p = xs @ p' \<and> ys = p' @ x # q)"
  by (auto simp: append_eq_append_conv2 append_eq_Cons_conv Cons_eq_append_conv)

lemma safeApiCall_from_cases:
  assumes "safeApiCall_from w u retries a = (r, tr)"
  obtains
    (over) "\<not> a \<le> retries" "r = Inr Null" "tr = []"
  | (resolved) d where "a \<le> retries" "http w a = Resolved d" "r = Inr d" "tr = [Get a]"
  | (returned) c evs v where "a \<le> retries" "http w a = Rejected c"
      "on_rejected w u retries a c = (Return v, evs)" "r = Inr v" "tr = Get a # evs"
  | (thrown) c evs e where "a \<le> retries" "http w a = Rejected c"
      "on_rejected w u retries a c = (Throw e, evs)" "r = Inl e" "tr = Get a # evs"
  | (again) c evs tr' where "a \<le> retries" "http w a = Rejected c"
      "on_rejected w u retries a c = (Continue, evs)"
      "safeApiCall_from w u retries (Suc a) = (r, tr')" "tr = Get a # evs @ tr'"
proof (cases "a \<le> retries")
  case False
  with assms have "r = Inr Null" "tr = []" by (simp_all add: safeApiCall_from.simps)
  with False show ?thesis by (rule over)
next
  case le: True
  show ?thesis
  proof (cases "http w a")
    case (Resolved d)
    with le assms have "r = Inr d" "tr = [Get a]" by (simp_all add: safeApiCall_from.simps)
    with le Resolved show ?thesis by (rule resolved)
  next
    case (Rejected c)
    obtain ctl evs where on: "on_rejected w u retries a c = (ctl, evs)" by (cases "on_rejected w u retries a c")
    show ?thesis
    proof (cases ctl)
      case (Return v)
      with le Rejected on assms have "r = Inr v" "tr = Get a # evs" by (simp_all add: safeApiCall_from.simps)
      with le Rejected on Return show ?thesis using returned by blast
    next
      case (Throw e)
      with le Rejected on assms have "r = Inl e" "tr = Get a # evs" by (simp_all add: safeApiCall_from.simps)
      with le Rejected on Throw show ?thesis using thrown by blast
    next
      case Continue
      obtain r' tr' where rec: "safeApiCall_from w u retries (Suc a) = (r', tr')"
        by (cases "safeApiCall_from w u retries (Suc a)")
      with le Rejected on Continue assms have "r = r'" "tr = Get a # evs @ tr'"
        by (simp_all add: safeApiCall_from.simps [of w u retries a] emit_def)
      with le Rejected on Continue rec show ?thesis using again by blast
    qed
  qed
qed

lemma on_rejected_no_get: "on_rejected w u retries a c = (ctl, evs) \<Longrightarrow> Get n \<notin> set evs"
  by (drule on_rejected_events) (auto split: if_splits)

lemma get_then_bypass:
  "safeApiCall_from w u retries a = (r, tr) \<Longrightarrow> tr = pre @ Get n # post \<Longrightarrow>
   http w n = Rejected c \<Longrightarrow> waf_status c \<Longrightarrow> \<exists>post'. post = Bypass n # post'"
proof (induction "Suc retries - a" arbitrary: a tr pre rule: less_induct)
  case less
  from less.prems(1) show ?case
  proof (cases rule: safeApiCall_from_cases)
    case over
    with less.prems show ?thesis by simp
  next
    case (resolved d)
    with less.prems have "pre = []" "n = a" by (simp_all add: Cons_eq_append_conv)
    with resolved less.prems show ?thesis by simp
  next
    case (returned c' evs v)
    note ev = on_rejected_events [OF returned(3)]
    from returned less.prems ev show ?thesis
      by (auto simp: Cons_eq_append_conv append_eq_Cons_conv split: if_splits)
  next
    case (thrown c' evs e)
    note ev = on_rejected_events [OF thrown(3)]
    from thrown less.prems ev show ?thesis
      by (auto simp: Cons_eq_append_conv append_eq_Cons_conv split: if_splits)
  next
    case (again c' evs tr')
    note ev = on_rejected_events [OF again(3)]
    show ?thesis
    proof (cases pre)
      case Nil
      with again less.prems ev show ?thesis by (auto split: if_splits)
    next
      case (Cons x pre')
      with again less.prems have eq: "evs @ tr' = pre' @ Get n # post" by simp
      from append_eq_mid [OF eq] on_rejected_no_get [OF again(3), of n]
      obtain p' where "tr' = p' @ Get n # post" by auto
      moreover have "Suc retries - Suc a < Suc retries - a" using again(1) by simp
      ultimately show ?thesis using less.hyps again(4) less.prems(3,4) by blast
    qed
  qed
qed

lemma on_rejected_bypass_mid:
  assumes "on_rejected w u retries a c = (ctl, evs)" "evs = p @ Bypass n # q"
  shows "p = [] \<and> n = a \<and> waf_status c \<and> q = (if ctl = Continue then [Sleep (1000 * 2 ^ (a - 1))] else [])"
  using on_rejected_events [OF assms(1)] assms(2)
  by (auto simp: Cons_eq_append_conv append_eq_Cons_conv split: if_splits)

lemma bypass_after_blocked_get:
  "safeApiCall_from w u retries a = (r, tr) \<Longrightarrow> tr = pre @ Bypass n # post \<Longrightarrow>
   \<exists>c pre'. pre = pre' @ [Get n] \<and> http w n = Rejected c \<and> waf_status c"
proof (induction "Suc retries - a" arbitrary: a tr pre rule: less_induct)
  case less
  from less.prems(1) show ?case
  proof (cases rule: safeApiCall_from_cases)
    case over
    with less.prems show ?thesis by simp
  next
    case (resolved d)
    with less.prems show ?thesis by (simp add: Cons_eq_append_conv)
  next
    case (returned c' evs v)
    with less.prems obtain pre' where pre: "pre = Get a # pre'" and eq: "evs = pre' @ Bypass n # post"
      by (auto simp: Cons_eq_append_conv)
    from on_rejected_bypass_mid [OF returned(3) eq] pre returned(2) show ?thesis by auto
  next
    case (thrown c' evs e)
    with less.prems obtain pre' where pre: "pre = Get a # pre'" and eq: "evs = pre' @ Bypass n # post"
      by (auto simp: Cons_eq_append_conv)
    from on_rejected_bypass_mid [OF thrown(3) eq] pre thrown(2) show ?thesis by auto
  next
    case (again c' evs tr')
    with less.prems obtain pre' where pre: "pre = Get a # pre'" and eq: "evs @ tr' = pre' @ Bypass n # post"
      by (auto simp: Cons_eq_append_conv)
    from append_eq_mid [OF eq] show ?thesis
    proof
      assume "\<exists>q'. evs = pre' @ Bypass n # q' \<and> post = q' @ tr'"
      then obtain q' where "evs = pre' @ Bypass n # q'" by blast
      from on_rejected_bypass_mid [OF again(3) this] pre again(2) show ?thesis by auto
    next
      assume "\<exists>p'. pre' = evs @ p' \<and> tr' = p' @ Bypass n # post"
      then obtain p' where p': "pre' = evs @ p'" "tr' = p' @ Bypass n # post" by blast
      have "Suc retries - Suc a < Suc retries - a" using again(1) by simp
      from less.hyps [OF this again(4) p'(2)]
      obtain c pre'' where "p' = pre'' @ [Get n]" "http w n = Rejected c" "waf_status c" by blast
      with pre p'(1) have "pre = (Get a # evs @ pre'') @ [Get n]" by simp
      with \<open>http w n = Rejected c\<close> \<open>waf_status c\<close> show ?thesis by blast
    qed
  qed
qed

lemma on_rejected_bypass_data:
  assumes "on_rejected w u retries a c = (ctl, evs)" "waf_status c"
    "scrapeWithPlaywright (browser w a) u = Inr (Some d)"
  shows "ctl = Return (Object d)"
  using on_rejected_control [OF assms(1)] assms(2,3) by simp

lemma bypass_data_is_result:
  "safeApiCall_from w u retries a = (r, tr) \<Longrightarrow> tr = pre @ Bypass n # post \<Longrightarrow>
   scrapeWithPlaywright (browser w n) u = Inr (Some d) \<Longrightarrow> r = Inr (Object d) \<and> post = []"
proof (induction "Suc retries - a" arbitrary: a tr pre rule: less_induct)
  case less
  from less.prems(1) show ?case
  proof (cases rule: safeApiCall_from_cases)
    case over
    with less.prems show ?thesis by simp
  next
    case (resolved d)
    with less.prems show ?thesis by (simp add: Cons_eq_append_conv)
  next
    case (returned c' evs v)
    with less.prems obtain pre' where pre: "pre = Get a # pre'" and eq: "evs = pre' @ Bypass n # post"
      by (auto simp: Cons_eq_append_conv)
    note mid = on_rejected_bypass_mid [OF returned(3) eq]
    with on_rejected_bypass_data [OF returned(3)] less.prems(3) returned(4) show ?thesis by auto
  next
    case (thrown c' evs e)
    with less.prems obtain pre' where pre: "pre = Get a # pre'" and eq: "evs = pre' @ Bypass n # post"
      by (auto simp: Cons_eq_append_conv)
    note mid = on_rejected_bypass_mid [OF thrown(3) eq]
    with on_rejected_bypass_data [OF thrown(3)] less.prems(3) show ?thesis by auto
  next
    case (again c' evs tr')
    with less.prems obtain pre' where pre: "pre = Get a # pre'" and eq: "evs @ tr' = pre' @ Bypass n # post"
      by (auto simp: Cons_eq_append_conv)
    from append_eq_mid [OF eq] show ?thesis
    proof
      assume "\<exists>q'. evs = pre' @ Bypass n # q' \<and> post = q' @ tr'"
      then obtain q' where "evs = pre' @ Bypass n # q'" by blast
      note mid = on_rejected_bypass_mid [OF again(3) this]
      with on_rejected_bypass_data [OF again(3)] less.prems(3) show ?thesis by auto
    next
      assume "\<exists>p'. pre' = evs @ p' \<and> tr' = p' @ Bypass n # post"
      then obtain p' where p': "tr' = p' @ Bypass n # post" by blast
      have "Suc retries - Suc a < Suc retries - a" using again(1) by simp
      from less.hyps [OF this again(4) p' less.prems(3)] show ?thesis .
    qed
  qed
qed

lemma bypasses_append: "bypasses (xs @ ys) = bypasses xs @ bypasses ys"
  by (induction xs rule: bypasses.induct) auto

lemma on_rejected_bypasses:
  "on_rejected w u retries a c = (ctl, evs) \<Longrightarrow> bypasses evs = (if waf_status c then [a] else [])"
  by (drule on_rejected_events) (auto split: if_splits)

lemma bypasses_bounds:
  "safeApiCall_from w u retries a = (r, tr) \<Longrightarrow>
   length (bypasses tr) \<le> Suc retries - a \<and> distinct (bypasses tr) \<and> (\<forall>n \<in> set (bypasses tr). a \<le> n)"
proof (induction "Suc retries - a" arbitrary: a tr rule: less_induct)
  case less
  from less.prems(1) show ?case
  proof (cases rule: safeApiCall_from_cases)
    case over
    then show ?thesis by simp
  next
    case (resolved d)
    then show ?thesis by simp
  next
    case (returned c' evs v)
    with on_rejected_bypasses [OF returned(3)] show ?thesis by auto
  next
    case (thrown c' evs e)
    with on_rejected_bypasses [OF thrown(3)] show ?thesis by auto
  next
    case (again c' evs tr')
    have "Suc retries - Suc a < Suc retries - a" using again(1) by simp
    from less.hyps [OF this again(4)]
    have ih: "length (bypasses tr') \<le> Suc retries - Suc a" "distinct (bypasses tr')"
      "\<forall>n \<in> set (bypasses tr'). Suc a \<le> n" by auto
    have "bypasses tr = (if waf_status c' then [a] else []) @ bypasses tr'"
      using again(5) on_rejected_bypasses [OF again(3)] by (simp add: bypasses_append)
    with ih again(1) show ?thesis by (auto split: if_splits)
  qed
qed

lemma starts_with_get:
  "safeApiCall_from w u retries a = (r, tr) \<Longrightarrow> a \<le> retries \<Longrightarrow> \<exists>rest. tr = Get a # rest"
  by (erule safeApiCall_from_cases) auto

lemma get_at_head:
  "Get a # evs = pre @ Get n # post \<Longrightarrow> Get n \<notin> set evs \<Longrightarrow> pre = [] \<and> n = a \<and> post = evs"
  by (cases pre) auto

lemma failed_bypass_goes_on:
  "safeApiCall_from w u retries a = (r, tr) \<Longrightarrow> tr = pre @ Get n # post \<Longrightarrow>
   http w n = Rejected c \<Longrightarrow> waf_status c \<Longrightarrow>
   scrapeWithPlaywright (browser w n) u = Inr None \<Longrightarrow> n < retries \<Longrightarrow>
   \<exists>post'. post = Bypass n # Sleep (1000 * 2 ^ (n - 1)) # Get (Suc n) # post'"
proof (induction "Suc retries - a" arbitrary: a tr pre rule: less_induct)
  case less
  have ctl: "on_rejected w u retries n c = (ctl, evs) \<Longrightarrow> ctl = Continue" for ctl evs
    using on_rejected_control [of w u retries n c ctl evs] less.prems(4,5,6) by simp
  from less.prems(1) show ?case
  proof (cases rule: safeApiCall_from_cases)
    case over
    with less.prems show ?thesis by simp
  next
    case (resolved d)
    with less.prems have "pre = []" "n = a" by (simp_all add: Cons_eq_append_conv)
    with resolved less.prems show ?thesis by simp
  next
    case (returned c' evs v)
    from returned less.prems(2) on_rejected_no_get [OF returned(3), of n]
    have "pre = []" "n = a" using get_at_head [of a evs pre n post] by auto
    with returned ctl less.prems(3) show ?thesis by auto
  next
    case (thrown c' evs e)
    from thrown less.prems(2) on_rejected_no_get [OF thrown(3), of n]
    have "pre = []" "n = a" using get_at_head [of a evs pre n post] by auto
    with thrown ctl less.prems(3) show ?thesis by auto
  next
    case (again c' evs tr')
    note ev = on_rejected_events [OF again(3)]
    show ?thesis
    proof (cases pre)
      case Nil
      with again less.prems have n: "n = a" "c' = c" "post = evs @ tr'" by auto
      from starts_with_get [OF again(4)] less.prems(6) n obtain rest where "tr' = Get (Suc a) # rest"
        by auto
      with ev n less.prems(4) show ?thesis by simp
    next
      case (Cons x pre')
      with again less.prems have eq: "evs @ tr' = pre' @ Get n # post" by simp
      from append_eq_mid [OF eq] on_rejected_no_get [OF again(3), of n]
      obtain p' where "tr' = p' @ Get n # post" by auto
      moreover have "Suc retries - Suc a < Suc retries - a" using again(1) by simp
      ultimately show ?thesis using less.hyps again(4) less.prems(3,4,5,6) by blast
    qed
  qed
qed

lemma null_result_cases:
  "safeApiCall_from w u retries a = (r, tr) \<Longrightarrow> r = Inr Null \<Longrightarrow> a \<le> retries \<Longrightarrow>
   Get retries \<in> set tr \<or> (\<exists>n. Get n \<in> set tr \<and> http w n = Resolved Null)"
proof (induction "Suc retries - a" arbitrary: a tr rule: less_induct)
  case less
  from less.prems(1) show ?case
  proof (cases rule: safeApiCall_from_cases)
    case over
    with less.prems show ?thesis by simp
  next
    case (resolved d)
    with less.prems have "Get a \<in> set tr" "http w a = Resolved Null" by simp_all
    then show ?thesis by blast
  next
    case (returned c' evs v)
    from on_rejected_control [OF returned(3)] returned(4) less.prems(2) have "a = retries"
      by (auto split: if_splits sum.splits option.splits)
    with returned show ?thesis by simp
  next
    case (thrown c' evs e)
    with less.prems show ?thesis by simp
  next
    case (again c' evs tr')
    from on_rejected_control [OF again(3)] have "a \<noteq> retries"
      by (auto split: if_splits sum.splits option.splits)
    with again(1) have le: "Suc a \<le> retries" by simp
    have "Suc retries - Suc a < Suc retries - a" using again(1) by simp
    from less.hyps [OF this again(4) less.prems(2) le] again(5) show ?thesis by auto
  qed
qed

lemma plain_failure_step:
  assumes "a \<le> retries" "http w a = Rejected c" "\<not> waf_status c" "b = Suc a"
  shows "safeApiCall_from w u retries a =
           (if a = retries then (Inr Null, [Get a])
            else emit [Get a, Sleep (1000 * 2 ^ (a - 1))] (safeApiCall_from w u retries b))"
  using assms by (simp add: safeApiCall_from.simps [of w u retries a] on_rejected_def)

text \<open>
  Claim C2, as the code has it. A fetch with three attempts whose three requests fail
  with a status that is neither 403 nor 503 (or with none) makes exactly the requests 1,
  2 and 3, waits 1000 ms after the first and 2000 ms after the second, never calls the
  bypass, and returns no data (null) without throwing. There is no delay after the third
  request: the loop returns before the backoff at the last attempt.
\<close>

theorem three_failures_two_delays:
  assumes "\<forall>n \<in> {1, 2, 3}. \<exists>c. http w n = Rejected c \<and> \<not> waf_status c"
  shows "safeApiCall w u 3 = (Inr Null, [Get 1, Sleep 1000, Get 2, Sleep 2000, Get 3])"
proof -
  from assms obtain c1 c2 c3 where
    r: "http w 1 = Rejected c1" "http w 2 = Rejected c2" "http w 3 = Rejected c3"
    and n: "\<not> waf_status c1" "\<not> waf_status c2" "\<not> waf_status c3"
    by auto
  have s3: "safeApiCall_from w u 3 3 = (Inr Null, [Get 3])"
    by (subst plain_failure_step [where b = 4 and c = c3]) (use r n in simp_all)
  have s2: "safeApiCall_from w u 3 2 = (Inr Null, [Get 2, Sleep 2000, Get 3])"
    by (subst plain_failure_step [where b = 3 and c = c2]) (use r n s3 in \<open>simp_all add: emit_def\<close>)
  have s1: "safeApiCall_from w u 3 1 = (Inr Null, [Get 1, Sleep 1000, Get 2, Sleep 2000, Get 3])"
    by (subst plain_failure_step [where b = 2 and c = c1]) (use r n s2 in \<open>simp_all add: emit_def\<close>)
  then show ?thesis by (simp add: safeApiCall_def)
qed

theorem three_failures_two_delays_witness:
  "(\<exists>c. http timeouts_world 1 = Rejected c \<and> \<not> waf_status c) \<and>
   (\<exists>c. http timeouts_world 2 = Rejected c \<and> \<not> waf_status c) \<and>
   (\<exists>c. http timeouts_world 3 = Rejected c \<and> \<not> waf_status c) \<and>
   safeApiCall timeouts_world ebay_url 3 = (Inr Null, [Get 1, Sleep 1000, Get 2, Sleep 2000, Get 3])"
proof -
  have h: "\<forall>n \<in> {1, 2, 3}. \<exists>c. http timeouts_world n = Rejected c \<and> \<not> waf_status c"
    by (simp add: timeouts_world_def waf_status_def)
  from three_failures_two_delays [OF h, of ebay_url] h show ?thesis by simp
qed

text \<open>
  Claim C2 as it is written asks for the delays 1000, 2000 and 4000 ms: on three
  timeouts the delays are 1000 and 2000 ms only.
\<close>

theorem three_failures_third_delay_counterexample:
  "\<not> (fst (safeApiCall timeouts_world ebay_url 3) = Inr Null \<and>
      requests (snd (safeApiCall timeouts_world ebay_url 3)) = [1, 2, 3] \<and>
      delays (snd (safeApiCall timeouts_world ebay_url 3)) = [1000, 2000, 4000])"
  by (simp add: safeApiCall_def safeApiCall_from.simps on_rejected_def timeouts_world_def
      waf_status_def emit_def)

text \<open>
  Claim C3. In the events of any fetch: a request that fails with status 403 or 503 is
  followed at once by the bypass for that attempt, so before any backoff delay; when the
  bypass of an attempt yields data, the fetch returns that data and nothing follows the
  bypass (no delay, no further request); and a bypass is only ever called right after a
  request of the same attempt that failed with status 403 or 503.
\<close>

theorem bypass_on_waf_status:
  assumes "safeApiCall w u retries = (r, tr)"
  shows "(\<forall>pre n post c. tr = pre @ Get n # post \<and> http w n = Rejected c \<and> waf_status c \<longrightarrow>
            (\<exists>post'. post = Bypass n # post')) \<and>
         (\<forall>pre n post d. tr = pre @ Bypass n # post \<and>
              scrapeWithPlaywright (browser w n) u = Inr (Some d) \<longrightarrow>
            r = Inr (Object d) \<and> post = []) \<and>
         (\<forall>pre n post. tr = pre @ Bypass n # post \<longrightarrow>
            (\<exists>c pre'. pre = pre' @ [Get n] \<and> http w n = Rejected c \<and> waf_status c))"
proof -
  from assms have run: "safeApiCall_from w u retries 1 = (r, tr)" by (simp add: safeApiCall_def)
  show ?thesis
    using get_then_bypass [OF run] bypass_data_is_result [OF run] bypass_after_blocked_get [OF run]
    by blast
qed

lemma rescued_run:
  "safeApiCall rescued_world ebay_url 3 =
     (Inr (Object \<lparr>itemSummaries = Some [], rawHtml = None\<rparr>), [Get 1, Bypass 1])"
  by (simp add: safeApiCall_def safeApiCall_from.simps on_rejected_def rescued_world_def
      good_browser_def waf_status_def scrapeWithPlaywright_def ebay_url_def)

theorem bypass_on_waf_status_witness:
  "safeApiCall rescued_world ebay_url 3 =
     (Inr (Object \<lparr>itemSummaries = Some [], rawHtml = None\<rparr>), [Get 1, Bypass 1]) \<and>
   http rescued_world 1 = Rejected (Some 403) \<and> waf_status (Some 403) \<and>
   scrapeWithPlaywright (browser rescued_world 1) ebay_url =
     Inr (Some \<lparr>itemSummaries = Some [], rawHtml = None\<rparr>) \<and>
   (\<exists>post'. [Bypass 1] = Bypass 1 # post') \<and>
   (\<exists>c pre'. [Get 1] = pre' @ [Get 1] \<and> http rescued_world 1 = Rejected c \<and> waf_status c)"
proof -
  have h: "http rescued_world 1 = Rejected (Some 403)" "waf_status (Some 403)"
    "scrapeWithPlaywright (browser rescued_world 1) ebay_url =
       Inr (Some \<lparr>itemSummaries = Some [], rawHtml = None\<rparr>)"
    by (simp_all add: rescued_world_def waf_status_def scrapeWithPlaywright_def good_browser_def
        ebay_url_def)
  from bypass_on_waf_status [OF rescued_run]
  have "\<forall>pre n post. [Get 1, Bypass 1] = pre @ Bypass n # post \<longrightarrow>
            (\<exists>c pre'. pre = pre' @ [Get n] \<and> http rescued_world n = Rejected c \<and> waf_status c)"
    by blast
  then have "\<exists>c pre'. [Get 1] = pre' @ [Get 1] \<and> http rescued_world 1 = Rejected c \<and> waf_status c"
    by (metis append_Cons append_Nil)
  with rescued_run h show ?thesis by simp
qed

text \<open>
  Claim C10, as the code has it. When the bypass gives no data on an attempt that failed
  with 403 or 503 and is not the last one, the fetch goes on with the backoff delay of
  that attempt and the next request. The bypass is called at most once per attempt, so at
  most \<open>retries\<close> times (3 in the sweep). A fetch that returns null has made its last
  attempt, or one of its requests was answered with the data \<^verbatim>\<open>null\<close>, which the fetch
  returns as it is.
\<close>

theorem failed_bypass_retries:
  assumes "safeApiCall w u retries = (r, tr)"
  shows "(\<forall>pre n post c. tr = pre @ Get n # post \<and> http w n = Rejected c \<and> waf_status c \<and>
              scrapeWithPlaywright (browser w n) u = Inr None \<and> n < retries \<longrightarrow>
            (\<exists>post'. post = Bypass n # Sleep (1000 * 2 ^ (n - 1)) # Get (Suc n) # post')) \<and>
         length (bypasses tr) \<le> retries \<and> distinct (bypasses tr) \<and>
         (r = Inr Null \<and> 0 < retries \<longrightarrow>
            Get retries \<in> set tr \<or> (\<exists>n. Get n \<in> set tr \<and> http w n = Resolved Null))"
proof -
  from assms have run: "safeApiCall_from w u retries 1 = (r, tr)" by (simp add: safeApiCall_def)
  have "length (bypasses tr) \<le> retries" "distinct (bypasses tr)"
    using bypasses_bounds [OF run] by simp_all
  moreover have "r = Inr Null \<and> 0 < retries \<longrightarrow>
      Get retries \<in> set tr \<or> (\<exists>n. Get n \<in> set tr \<and> http w n = Resolved Null)"
    using null_result_cases [OF run] by auto
  ultimately show ?thesis using failed_bypass_goes_on [OF run] by blast
qed

lemma blocked_run:
  "safeApiCall blocked_world ebay_url 3 =
     (Inr Null, [Get 1, Bypass 1, Sleep 1000, Get 2, Bypass 2, Sleep 2000, Get 3, Bypass 3])"
  by (simp add: safeApiCall_def safeApiCall_from.simps on_rejected_def blocked_world_def
      no_browser_def waf_status_def scrapeWithPlaywright_def emit_def)

theorem failed_bypass_retries_witness:
  "http blocked_world 1 = Rejected (Some 403) \<and> waf_status (Some 403) \<and>
   scrapeWithPlaywright (browser blocked_world 1) ebay_url = Inr None \<and> (1 :: nat) < 3 \<and>
   safeApiCall blocked_world ebay_url 3 =
     (Inr Null, [Get 1, Bypass 1, Sleep 1000, Get 2, Bypass 2, Sleep 2000, Get 3, Bypass 3]) \<and>
   bypasses [Get 1, Bypass 1, Sleep 1000, Get 2, Bypass 2, Sleep 2000, Get 3, Bypass 3] = [1, 2, 3] \<and>
   Get 3 \<in> set [Get 1, Bypass 1, Sleep 1000, Get 2, Bypass 2, Sleep 2000, Get 3, Bypass 3]"
proof -
  have h: "http blocked_world 1 = Rejected (Some 403)" "waf_status (Some 403)"
    "scrapeWithPlaywright (browser blocked_world 1) ebay_url = Inr None"
    by (simp_all add: blocked_world_def waf_status_def scrapeWithPlaywright_def no_browser_def)
  show ?thesis using failed_bypass_retries [OF blocked_run] blocked_run h by simp
qed

text \<open>
  Claim C10 as it is written has the fetch return null only after the final attempt:
  when the first request is answered by 403, the bypass fails, and the second request is
  answered by 200 with the body \<^verbatim>\<open>null\<close>, the fetch returns null after two of its three
  attempts.
\<close>

theorem null_body_counterexample:
  "http null_body_world 1 = Rejected (Some 403) \<and>
   scrapeWithPlaywright (browser null_body_world 1) ebay_url = Inr None \<and>
   safeApiCall null_body_world ebay_url 3 = (Inr Null, [Get 1, Bypass 1, Sleep 1000, Get 2]) \<and>
   Get 3 \<notin> set (snd (safeApiCall null_body_world ebay_url 3))"
  by (simp add: safeApiCall_def safeApiCall_from.simps on_rejected_def null_body_world_def
      no_browser_def waf_status_def scrapeWithPlaywright_def emit_def)

section \<open>The sweep\<close>

lemma map_of_scale:
  "map_of CONDITION_SCALE (calculateCondition s) \<noteq> None"
  by (simp add: CONDITION_SCALE_def calculateCondition_def Let_def)

lemma evaluate_item_titled:
  assumes "title it = Some t"
  shows "evaluate_item now it =
     (case find (contains t) TARGET_BRANDS of
        None \<Rightarrow> Inr None
      | Some b \<Rightarrow>
          (let est = js_mul (getBaseValue b)
                 (multiplier (the (map_of CONDITION_SCALE (calculateCondition (condition_text it)))))
           in if admitted est (listed_price it) then
                Inr (Some \<lparr>signal_id = ''EBAY-'' @ itemId it, source = ''eBay'',
                   targetName = t, brandCategory = b,
                   conditionScore = calculateCondition (condition_text it),
                   listedPrice = listed_price it, estimatedValue = est,
                   profitMargin = js_sub est (listed_price it), url = itemWebUrl it,
                   signal_status = PENDING, timestamp = now\<rparr>)
              else Inr None))"
proof -
  have f: "find (\<lambda>b. includes_str t b) TARGET_BRANDS = find (contains t) TARGET_BRANDS"
    by (rule arg_cong [where f = "\<lambda>P. find P TARGET_BRANDS"]) (auto simp: includes_contains)
  obtain entry where e: "map_of CONDITION_SCALE (calculateCondition (condition_text it)) = Some entry"
    using map_of_scale [of "condition_text it"] by blast
  show ?thesis
    using assms e
    by (simp add: evaluate_item_def f Let_def split: option.splits)
qed

lemma evaluate_item_no_throw:
  "title it \<noteq> None \<Longrightarrow> \<exists>r. evaluate_item now it = Inr r"
  by (auto simp: evaluate_item_titled Let_def split: option.splits)


lemma sweep_try_client:
  assumes "store_client w = Inr ()"
  shows "sweep_try w =
     (let (ebayResponse, evs) = safeApiCall (network w (sweep_proxy w)) ebay_url 3
      in case ebayResponse of
           Inl e \<Rightarrow> (Inl e, evs)
         | Inr response \<Rightarrow>
             (case response_signals (clock w) response of
                Inl e \<Rightarrow> (Inl e, evs)
              | Inr signals \<Rightarrow>
                  (if signals \<noteq> [] then
                     (case insert_error w of
                        Some m \<Rightarrow> (Inl (Error (''Supabase Insert Failed: '' @ m)), evs)
                      | None \<Rightarrow> (Inr signals, evs))
                   else (Inr signals, evs))))"
proof -
  from assms have "getSupabase (credentials w) (client_error w)
      ''FATAL: Supabase credentials missing. Proxy Commander offline.'' = Inr ()"
    by (auto simp: store_client_def getSupabase_def split: if_splits option.splits)
  then show ?thesis by (simp add: sweep_try_def Let_def)
qed


lemma literal_13: "round_double (13 / 10) = Fin (5854679515581645 / 4503599627370496)"
  by code_simp




lemma listing_run:
  "safeApiCall (network (listing_world items) (sweep_proxy (listing_world items))) ebay_url 3 =
     (Inr (Object \<lparr>itemSummaries = Some items, rawHtml = None\<rparr>), [Get 1])"
  by (simp add: listing_world_def safeApiCall_def safeApiCall_from.simps)

lemma listing_client: "store_client (listing_world items) = Inr ()"
  by (simp add: store_client_def getSupabase_def listing_world_def)

lemma chanel_signal:
  "evaluate_item ''2026-01-01T00:00:00.000Z'' chanel_item =
     Inr (Some \<lparr>signal_id = ''EBAY-v1|1'', source = ''eBay'', targetName = ''Chanel Classic Flap'',
           brandCategory = ''Chanel'', conditionScore = 5, listedPrice = Fin 100,
           estimatedValue = Fin 5000, profitMargin = Fin 4900,
           url = ''https://www.ebay.com/itm/1'', signal_status = PENDING,
           timestamp = ''2026-01-01T00:00:00.000Z''\<rparr>)"
  by code_simp







lemma one_listing:
  "process_items (\<lambda>i. ''2026-01-01T00:00:00.000Z'') 0 [chanel_item] =
     Inr [\<lparr>signal_id = ''EBAY-v1|1'', source = ''eBay'', targetName = ''Chanel Classic Flap'',
           brandCategory = ''Chanel'', conditionScore = 5, listedPrice = Fin 100,
           estimatedValue = Fin 5000, profitMargin = Fin 4900,
           url = ''https://www.ebay.com/itm/1'', signal_status = PENDING,
           timestamp = ''2026-01-01T00:00:00.000Z''\<rparr>]"
  by (simp add: chanel_signal)

lemma brand_of_chanel: "find (contains ''Chanel Classic Flap'') TARGET_BRANDS = Some ''Chanel''"
  by (simp add: includes_contains [symmetric] TARGET_BRANDS_def)


lemma failing_insert_fields:
  "store_client failing_insert_world = Inr ()"
  "network failing_insert_world = network (listing_world [chanel_item])"
  "sweep_proxy failing_insert_world = sweep_proxy (listing_world [chanel_item])"
  "clock failing_insert_world = (\<lambda>i. ''2026-01-01T00:00:00.000Z'')"
  "insert_error failing_insert_world = Some ''timeout''"
  "log_clock failing_insert_world = ''2026-01-01T00:00:01.000Z''"
  by (simp_all add: failing_insert_world_def sweep_proxy_def listing_world_def store_client_def
      getSupabase_def getOptimalProxy_def optimal_query_def single_def limit_def order_latency_def
      eq_status_def)

lemma failing_insert_try:
  "fst (sweep_try failing_insert_world) = Inl (Error ''Supabase Insert Failed: timeout'')"
  by (simp add: sweep_try_client failing_insert_fields listing_run response_signals_def
      one_listing del: process_items.simps)



lemma last_bypass_gives_result:
  "safeApiCall_from w u retries a = (Inr (Object d), tr) \<Longrightarrow> tr = pre @ [Bypass n] \<Longrightarrow>
   scrapeWithPlaywright (browser w n) u = Inr (Some d)"
proof (induction "Suc retries - a" arbitrary: a tr pre rule: less_induct)
  case less
  from less.prems(1) show ?case
  proof (cases rule: safeApiCall_from_cases)
    case over
    with less.prems show ?thesis by simp
  next
    case (resolved d')
    with less.prems show ?thesis by (simp add: Cons_eq_append_conv)
  next
    case (returned c' evs v)
    from returned less.prems(2) have "last (Get a # evs) = Bypass n" by (metis last_snoc)
    then have "evs \<noteq> []" "last evs = Bypass n" by (auto split: if_splits)
    with on_rejected_events [OF returned(3)] have "waf_status c'" "n = a"
      by (auto split: if_splits)
    with on_rejected_control [OF returned(3)] returned(4) show ?thesis
      by (auto split: sum.splits option.splits if_splits)
  next
    case (thrown c' evs e)
    then show ?thesis by simp
  next
    case (again c' evs tr')
    from on_rejected_control [OF again(3)] have "a \<noteq> retries"
      by (auto split: if_splits sum.splits option.splits)
    with again(1) have "Suc a \<le> retries" by simp
    from starts_with_get [OF again(4) this] obtain rest where rest: "tr' = Get (Suc a) # rest" by blast
    with again(5) less.prems(2) have "last tr' = Bypass n" "tr' \<noteq> []"
      by (metis last_appendR last_snoc list.distinct(1) last_ConsR append_is_Nil_conv)+
    then have "tr' = butlast tr' @ [Bypass n]" by (metis append_butlast_last_id)
    moreover have "Suc retries - Suc a < Suc retries - a" using again(1) by simp
    ultimately show ?thesis using less.hyps again(4) by blast
  qed
qed

lemma ebay_url_contains_ebay: "contains ebay_url ''ebay''"
  by (simp add: includes_contains [symmetric] ebay_url_def)

lemma ebay_bypass_payload:
  "contains u ''ebay'' \<Longrightarrow> scrapeWithPlaywright run u = Inr (Some p) \<Longrightarrow>
   p = \<lparr>itemSummaries = Some [], rawHtml = None\<rparr>"
  by (auto simp: scrapeWithPlaywright_def includes_contains Let_def split: if_splits option.splits)

text \<open>
  Claim C9. A bypass that returns data for a URL containing "ebay" returns an empty list
  of item summaries; so a sweep whose fetch ends with a bypass that gave the result
  returns no signal and inserts none.
\<close>

theorem ebay_bypass_yields_no_signal:
  "(contains u ''ebay'' \<and> scrapeWithPlaywright run u = Inr (Some p) \<longrightarrow> itemSummaries p = Some []) \<and>
   (store_client w = Inr () \<and>
    safeApiCall (network w (sweep_proxy w)) ebay_url 3 = (Inr (Object d), pre @ [Bypass n]) \<longrightarrow>
      itemSummaries d = Some [] \<and> returned (runSweep w) = Inr [] \<and>
      signals_inserted (runSweep w) = [])"
proof -
  have a: "contains u ''ebay'' \<and> scrapeWithPlaywright run u = Inr (Some p) \<longrightarrow> itemSummaries p = Some []"
    using ebay_bypass_payload [of u run p] by auto
  have b: "itemSummaries d = Some [] \<and> returned (runSweep w) = Inr [] \<and>
      signals_inserted (runSweep w) = []"
    if c: "store_client w = Inr ()"
      and f: "safeApiCall (network w (sweep_proxy w)) ebay_url 3 = (Inr (Object d), pre @ [Bypass n])"
  proof -
    from f have "safeApiCall_from (network w (sweep_proxy w)) ebay_url 3 1 = (Inr (Object d), pre @ [Bypass n])"
      by (simp add: safeApiCall_def)
    from last_bypass_gives_result [OF this refl]
    have "d = \<lparr>itemSummaries = Some [], rawHtml = None\<rparr>"
      using ebay_bypass_payload [OF ebay_url_contains_ebay] by blast
    with c f show ?thesis
      by (simp add: runSweep_def sweep_try_client response_signals_def Let_def)
  qed
  from a b show ?thesis by blast
qed

lemma rescued_sweep_run:
  "safeApiCall (network rescued_sweep_world (sweep_proxy rescued_sweep_world)) ebay_url 3 =
     (Inr (Object \<lparr>itemSummaries = Some [], rawHtml = None\<rparr>), [Get 1] @ [Bypass 1])"
  using rescued_run by (simp add: rescued_sweep_world_def listing_world_def)

theorem ebay_bypass_yields_no_signal_witness:
  "contains ebay_url ''ebay'' \<and>
   scrapeWithPlaywright good_browser ebay_url = Inr (Some \<lparr>itemSummaries = Some [], rawHtml = None\<rparr>) \<and>
   store_client rescued_sweep_world = Inr () \<and>
   safeApiCall (network rescued_sweep_world (sweep_proxy rescued_sweep_world)) ebay_url 3 =
     (Inr (Object \<lparr>itemSummaries = Some [], rawHtml = None\<rparr>), [Get 1] @ [Bypass 1]) \<and>
   returned (runSweep rescued_sweep_world) = Inr [] \<and>
   signals_inserted (runSweep rescued_sweep_world) = []"
proof -
  have c: "store_client rescued_sweep_world = Inr ()"
    by (simp add: rescued_sweep_world_def listing_world_def store_client_def getSupabase_def)
  have s: "scrapeWithPlaywright good_browser ebay_url =
      Inr (Some \<lparr>itemSummaries = Some [], rawHtml = None\<rparr>)"
    using ebay_url_contains_ebay
    by (simp add: scrapeWithPlaywright_def good_browser_def includes_contains)
  from ebay_bypass_yields_no_signal [THEN conjunct2, THEN mp, OF conjI, OF c rescued_sweep_run]
  have "returned (runSweep rescued_sweep_world) = Inr [] \<and>
      signals_inserted (runSweep rescued_sweep_world) = []" by simp
  with c s rescued_sweep_run ebay_url_contains_ebay show ?thesis by simp
qed

text \<open>
  Claim C4, as the code has it. When the store client is made, a sweep never lets an
  exception reach its caller: whatever is thrown inside the \<^verbatim>\<open>try\<close> block (by the
  commander, by the fetch, by the evaluation of the listings or by the insert of the
  signals) is caught; the sweep then prints one console error line marked CRITICAL
  FAILURE with the message, inserts one record with the message into the log table (the
  code gives it the level ERROR), and returns the empty list. When the store client
  cannot be made (a credential is missing, or \<^verbatim>\<open>createClient\<close> throws), the exception
  reaches the caller and nothing is printed, logged or fetched.
\<close>

theorem sweep_failure_caught:
  "(store_client w = Inr () \<longrightarrow>
     (\<exists>signals. returned (runSweep w) = Inr signals) \<and>
     (\<forall>e. fst (sweep_try w) = Inl e \<longrightarrow>
        returned (runSweep w) = Inr [] \<and> signals_inserted (runSweep w) = [] \<and>
        console_errors (runSweep w) =
          [''[CRITICAL FAILURE] Engine Sweep Halted: '' @
           (case e of Error m \<Rightarrow> m | Thrown \<Rightarrow> ''Unknown error'')] \<and>
        logs_inserted (runSweep w) =
          [\<lparr>level = ''ERROR'',
            message = (case e of Error m \<Rightarrow> m | Thrown \<Rightarrow> ''Unknown error''),
            logged_at = log_clock w\<rparr>])) \<and>
   (\<forall>e. store_client w = Inl e \<longrightarrow>
      returned (runSweep w) = Inl e \<and> console_errors (runSweep w) = [] \<and>
      logs_inserted (runSweep w) = [] \<and> signals_inserted (runSweep w) = [] \<and>
      fetch_events (runSweep w) = [])"
  by (cases "sweep_try w"; cases "fst (sweep_try w)"; cases "store_client w")
     (auto simp: runSweep_def Let_def)

lemma bad_url_client:
  "store_client bad_url_world =
     Inl (Error ''Invalid supabaseUrl: Must be a valid HTTP or HTTPS URL.'')"
  by (simp add: store_client_def getSupabase_def bad_url_world_def listing_world_def)

lemma offline_client:
  "store_client offline_world = Inl (Error ''FATAL: Supabase credentials missing. Nexus offline.'')"
  by (simp add: store_client_def getSupabase_def offline_world_def listing_world_def)

theorem sweep_failure_caught_witness:
  "store_client failing_insert_world = Inr () \<and>
   fst (sweep_try failing_insert_world) = Inl (Error ''Supabase Insert Failed: timeout'') \<and>
   returned (runSweep failing_insert_world) = Inr [] \<and>
   console_errors (runSweep failing_insert_world) =
     [''[CRITICAL FAILURE] Engine Sweep Halted: Supabase Insert Failed: timeout''] \<and>
   logs_inserted (runSweep failing_insert_world) =
     [\<lparr>level = ''ERROR'', message = ''Supabase Insert Failed: timeout'',
       logged_at = ''2026-01-01T00:00:01.000Z''\<rparr>] \<and>
   store_client bad_url_world =
     Inl (Error ''Invalid supabaseUrl: Must be a valid HTTP or HTTPS URL.'') \<and>
   returned (runSweep bad_url_world) =
     Inl (Error ''Invalid supabaseUrl: Must be a valid HTTP or HTTPS URL.'') \<and>
   logs_inserted (runSweep bad_url_world) = []"
proof -
  note c = failing_insert_fields(1)
  from sweep_failure_caught [of failing_insert_world, THEN conjunct1, THEN mp, OF c,
      THEN conjunct2, THEN spec, THEN mp, OF failing_insert_try]
  have 1: "returned (runSweep failing_insert_world) = Inr [] \<and>
      console_errors (runSweep failing_insert_world) =
        [''[CRITICAL FAILURE] Engine Sweep Halted: Supabase Insert Failed: timeout''] \<and>
      logs_inserted (runSweep failing_insert_world) =
        [\<lparr>level = ''ERROR'', message = ''Supabase Insert Failed: timeout'',
          logged_at = ''2026-01-01T00:00:01.000Z''\<rparr>]"
    by (simp add: failing_insert_fields)
  from sweep_failure_caught [of bad_url_world, THEN conjunct2, THEN spec, THEN mp, OF bad_url_client]
  have 2: "returned (runSweep bad_url_world) =
      Inl (Error ''Invalid supabaseUrl: Must be a valid HTTP or HTTPS URL.'') \<and>
      logs_inserted (runSweep bad_url_world) = []"
    by simp
  from 1 2 c failing_insert_try bad_url_client show ?thesis by simp
qed

text \<open>A listing without a title is one more failure that the sweep catches.\<close>

lemma untitled_listing_caught:
  "returned (runSweep (listing_world [chanel_item, untitled_item])) = Inr [] \<and>
   signals_inserted (runSweep (listing_world [chanel_item, untitled_item])) = [] \<and>
   console_errors (runSweep (listing_world [chanel_item, untitled_item])) =
     [''[CRITICAL FAILURE] Engine Sweep Halted: Cannot read properties of undefined (reading '' @
      [CHR 0x27] @ ''includes'' @ [CHR 0x27] @ '')'']"
proof -
  let ?w = "listing_world [chanel_item, untitled_item]"
  have e: "evaluate_item now untitled_item = Inl (type_error ''includes'')" for now
    by (simp add: evaluate_item_def untitled_item_def)
  have c: "\<exists>r. evaluate_item now chanel_item = Inr r" for now
    by (rule evaluate_item_no_throw) (simp add: chanel_item_def)
  have "process_items clk 0 [chanel_item, untitled_item] = Inl (type_error ''includes'')" for clk
    using c [of "clk 0"] by (auto simp: e)
  then have "sweep_try ?w = (Inl (type_error ''includes''), [Get 1])"
    using listing_run [of "[chanel_item, untitled_item]"]
    by (simp add: sweep_try_client listing_client response_signals_def del: process_items.simps)
  then show ?thesis
    by (simp add: runSweep_def listing_client Let_def type_error_def)
qed

text \<open>
  Claim C4 as it is written covers every cause of failure and has the log record written
  with CRITICAL severity. With a credential missing, or with both set and a URL that
  \<^verbatim>\<open>createClient\<close> refuses, the exception of \<^verbatim>\<open>getSupabase\<close>, raised before the \<^verbatim>\<open>try\<close>
  block, reaches the caller and nothing is logged. And the record that a caught failure
  leaves in the log table has level ERROR.
\<close>

theorem sweep_config_failure_counterexample:
  "returned (runSweep offline_world) =
     Inl (Error ''FATAL: Supabase credentials missing. Nexus offline.'') \<and>
   console_errors (runSweep offline_world) = [] \<and>
   logs_inserted (runSweep offline_world) = [] \<and>
   credentials bad_url_world \<and>
   returned (runSweep bad_url_world) =
     Inl (Error ''Invalid supabaseUrl: Must be a valid HTTP or HTTPS URL.'') \<and>
   logs_inserted (runSweep bad_url_world) = [] \<and>
   map level (logs_inserted (runSweep failing_insert_world)) = [''ERROR'']"
proof -
  have "runSweep offline_world =
      \<lparr>returned = Inl (Error ''FATAL: Supabase credentials missing. Nexus offline.''),
       console_errors = [], logs_inserted = [], signals_inserted = [], fetch_events = []\<rparr>"
    by (simp add: runSweep_def offline_client)
  moreover have "runSweep bad_url_world =
      \<lparr>returned = Inl (Error ''Invalid supabaseUrl: Must be a valid HTTP or HTTPS URL.''),
       console_errors = [], logs_inserted = [], signals_inserted = [], fetch_events = []\<rparr>"
    by (simp add: runSweep_def bad_url_client)
  moreover have "credentials bad_url_world" by (simp add: bad_url_world_def listing_world_def)
  moreover have "map level (logs_inserted (runSweep failing_insert_world)) = [''ERROR'']"
    using failing_insert_try
    by (cases "sweep_try failing_insert_world")
       (simp add: runSweep_def failing_insert_fields Let_def)
  ultimately show ?thesis by simp
qed

section \<open>The proxy fleet\<close>

lemma enumerate_chunks:
  "enumerate i (take c (drop i xs)) @ enumerate (i + c) (drop (i + c) xs) = enumerate i (drop i xs)"
proof (cases "c \<le> length xs - i")
  case True
  have "enumerate i (drop i xs) = enumerate i (take c (drop i xs) @ drop c (drop i xs))"
    by (simp only: append_take_drop_id)
  also have "\<dots> = enumerate i (take c (drop i xs)) @
      enumerate (i + length (take c (drop i xs))) (drop c (drop i xs))"
    by (rule enumerate_append_eq)
  also have "length (take c (drop i xs)) = c" using True by simp
  also have "drop c (drop i xs) = drop (i + c) xs" by (simp add: add.commute)
  finally show ?thesis by simp
next
  case False
  then have "drop (i + c) xs = []" "take c (drop i xs) = drop i xs" by simp_all
  then show ?thesis by simp
qed

lemma validateBatch_from_total:
  "0 < c \<Longrightarrow>
   validateBatch_from w proxies c i results =
     Some (results @ map (\<lambda>(k, proxyStr). check_proxy (probe w k) (tested_at w k) proxyStr)
             (enumerate i (drop i proxies)))"
proof (induction "length proxies - i" arbitrary: i results rule: less_induct)
  case less
  show ?case
  proof (cases "i < length proxies")
    case False
    then show ?thesis by (subst validateBatch_from.simps) simp
  next
    case True
    with less.prems have "length proxies - (i + c) < length proxies - i" by simp
    note ih = less.hyps [OF this less.prems]
    show ?thesis
      using True
      by (subst validateBatch_from.simps)
         (simp add: ih Let_def map_append [symmetric] enumerate_chunks del: map_append)
  qed
qed

lemma validateBatch_total:
  "0 < c \<Longrightarrow>
   validateBatch w proxies c =
     Some (map (\<lambda>(k, proxyStr). check_proxy (probe w k) (tested_at w k) proxyStr)
             (enumerate 0 proxies))"
  by (simp add: validateBatch_def validateBatch_from_total)

lemma validateBatch_empty: "validateBatch w [] c = Some []"
  by (simp add: validateBatch_def validateBatch_from.simps)

lemma check_proxy_fields:
  "node_id (check_proxy outcome now p) = p"
  "status (check_proxy outcome now p) = (case outcome of ProbeOk ms \<Rightarrow> ACTIVE | ProbeFailed \<Rightarrow> DEAD)"
  "latency (check_proxy outcome now p) = (case outcome of ProbeOk ms \<Rightarrow> Some ms | ProbeFailed \<Rightarrow> None)"
  "fail_count (check_proxy outcome now p) = (case outcome of ProbeOk ms \<Rightarrow> 0 | ProbeFailed \<Rightarrow> 1)"
  by (simp_all add: check_proxy_def Let_def split: probe_outcome.splits)

lemma upsert_keeps:
  "\<forall>n \<in> ran table. P n \<Longrightarrow> \<forall>n \<in> set chunk. P n \<Longrightarrow> \<forall>n \<in> ran (upsert table chunk). P n"
proof -
  have "\<forall>n \<in> ran t. P n \<Longrightarrow> \<forall>n \<in> set chunk. P n \<Longrightarrow>
      \<forall>n \<in> ran (foldl (\<lambda>t n. t(node_id n \<mapsto> n)) t chunk). P n" for t
  proof (induction chunk arbitrary: t)
    case Nil
    then show ?case by simp
  next
    case (Cons x chunk)
    have "\<forall>n \<in> ran (t(node_id x \<mapsto> x)). P n"
      using Cons.prems by (auto simp: ran_def split: if_splits)
    with Cons show ?case by simp
  qed
  then show "\<forall>n \<in> ran table. P n \<Longrightarrow> \<forall>n \<in> set chunk. P n \<Longrightarrow> \<forall>n \<in> ran (upsert table chunk). P n"
    by (simp add: upsert_def)
qed

lemma syncToDatabase_from_keeps:
  "\<forall>n \<in> ran table. P n \<Longrightarrow> \<forall>n \<in> set nodes. P n \<Longrightarrow>
   \<forall>n \<in> ran (syncToDatabase_from fails nodes i table). P n"
proof (induction fails nodes i table rule: syncToDatabase_from.induct)
  case (1 fails nodes i table)
  show ?case
  proof (cases "i < length nodes")
    case False
    with "1.prems" show ?thesis by simp
  next
    case True
    have "\<forall>n \<in> set (take 1000 (drop i nodes)). P n"
      using "1.prems"(2) by (meson in_set_dropD in_set_takeD)
    then have "\<forall>n \<in> ran (if fails i then table else upsert table (take 1000 (drop i nodes))). P n"
      using upsert_keeps [of table P] "1.prems"(1) by simp
    from "1.IH" [OF True refl this "1.prems"(2)] True show ?thesis
      by (subst syncToDatabase_from.simps) (simp add: Let_def)
  qed
qed


text \<open>
  Claim C5. With a positive concurrency (or nothing to validate) \<open>validateBatch\<close>
  returns, and gives one node per candidate, in order: a probe that succeeds gives status
  ACTIVE with the measured latency and fail count 0, a probe that fails gives status DEAD
  with no latency and fail count 1. So every node produced is ACTIVE exactly when it has
  a latency, and a table whose rows satisfy this still does after \<open>syncToDatabase\<close>
  has written the nodes, whichever chunks the store refuses.
\<close>

theorem validateBatch_status_latency:
  assumes "0 < concurrency \<or> proxies = []"
  shows "\<exists>nodes. validateBatch w proxies concurrency = Some nodes \<and>
     length nodes = length proxies \<and>
     (\<forall>k < length proxies. node_id (nodes ! k) = proxies ! k \<and>
        (\<forall>ms. probe w k = ProbeOk ms \<longrightarrow>
           status (nodes ! k) = ACTIVE \<and> latency (nodes ! k) = Some ms \<and>
           fail_count (nodes ! k) = 0) \<and>
        (probe w k = ProbeFailed \<longrightarrow>
           status (nodes ! k) = DEAD \<and> latency (nodes ! k) = None \<and>
           fail_count (nodes ! k) = 1)) \<and>
     (\<forall>n \<in> set nodes. status n = ACTIVE \<longleftrightarrow> latency n \<noteq> None) \<and>
     ((\<forall>n \<in> ran table. status n = ACTIVE \<longleftrightarrow> latency n \<noteq> None) \<longrightarrow>
      (\<forall>n \<in> ran (syncToDatabase fails nodes table). status n = ACTIVE \<longleftrightarrow> latency n \<noteq> None))"
proof -
  let ?f = "\<lambda>(k, proxyStr). check_proxy (probe w k) (tested_at w k) proxyStr"
  let ?nodes = "map ?f (enumerate 0 proxies)"
  have run: "validateBatch w proxies concurrency = Some ?nodes"
    using assms validateBatch_total [of concurrency w proxies] validateBatch_empty [of w concurrency]
    by auto
  have nth: "?nodes ! k = check_proxy (probe w k) (tested_at w k) (proxies ! k)"
    if "k < length proxies" for k
    using that by (simp add: nth_enumerate_eq)
  have each: "node_id (?nodes ! k) = proxies ! k \<and>
        (\<forall>ms. probe w k = ProbeOk ms \<longrightarrow>
           status (?nodes ! k) = ACTIVE \<and> latency (?nodes ! k) = Some ms \<and>
           fail_count (?nodes ! k) = 0) \<and>
        (probe w k = ProbeFailed \<longrightarrow>
           status (?nodes ! k) = DEAD \<and> latency (?nodes ! k) = None \<and>
           fail_count (?nodes ! k) = 1)"
    if "k < length proxies" for k
    by (simp add: nth [OF that] check_proxy_fields)
  have inv: "\<forall>n \<in> set ?nodes. status n = ACTIVE \<longleftrightarrow> latency n \<noteq> None"
    by (auto simp: check_proxy_fields split: probe_outcome.splits)
  have kept: "(\<forall>n \<in> ran table. status n = ACTIVE \<longleftrightarrow> latency n \<noteq> None) \<longrightarrow>
      (\<forall>n \<in> ran (syncToDatabase fails ?nodes table). status n = ACTIVE \<longleftrightarrow> latency n \<noteq> None)"
    using syncToDatabase_from_keeps [of table "\<lambda>n. status n = ACTIVE \<longleftrightarrow> latency n \<noteq> None" ?nodes fails 0] inv
    unfolding syncToDatabase_def by blast
  from run each inv kept show ?thesis by (intro exI [of _ ?nodes]) simp
qed

theorem validateBatch_status_latency_witness:
  "(0 :: nat) < 50 \<and> probe two_probes 0 = ProbeOk 120 \<and> probe two_probes 1 = ProbeFailed \<and>
   (\<exists>nodes. validateBatch two_probes [''1.2.3.4:8080'', ''5.6.7.8:3128''] 50 = Some nodes \<and>
      length nodes = 2 \<and>
      status (nodes ! 0) = ACTIVE \<and> latency (nodes ! 0) = Some 120 \<and> fail_count (nodes ! 0) = 0 \<and>
      status (nodes ! 1) = DEAD \<and> latency (nodes ! 1) = None \<and> fail_count (nodes ! 1) = 1)"
proof -
  have p: "probe two_probes 0 = ProbeOk 120" "probe two_probes 1 = ProbeFailed"
    by (simp_all add: two_probes_def)
  have "(0 :: nat) < 50 \<or> [''1.2.3.4:8080'', ''5.6.7.8:3128''] = []" by simp
  from validateBatch_status_latency [OF this, of two_probes]
  obtain nodes where n: "validateBatch two_probes [''1.2.3.4:8080'', ''5.6.7.8:3128''] 50 = Some nodes"
    "length nodes = length [''1.2.3.4:8080'', ''5.6.7.8:3128'']"
    "\<forall>k < length [''1.2.3.4:8080'', ''5.6.7.8:3128'']. node_id (nodes ! k) = [''1.2.3.4:8080'', ''5.6.7.8:3128''] ! k \<and>
        (\<forall>ms. probe two_probes k = ProbeOk ms \<longrightarrow>
           status (nodes ! k) = ACTIVE \<and> latency (nodes ! k) = Some ms \<and>
           fail_count (nodes ! k) = 0) \<and>
        (probe two_probes k = ProbeFailed \<longrightarrow>
           status (nodes ! k) = DEAD \<and> latency (nodes ! k) = None \<and>
           fail_count (nodes ! k) = 1)"
    by blast
  from n(3) [rule_format, of 0] n(3) [rule_format, of 1] p
  have "status (nodes ! 0) = ACTIVE \<and> latency (nodes ! 0) = Some 120 \<and> fail_count (nodes ! 0) = 0 \<and>
      status (nodes ! 1) = DEAD \<and> latency (nodes ! 1) = None \<and> fail_count (nodes ! 1) = 1"
    by simp
  with n(1,2) p show ?thesis by auto
qed

lemma two_probes_nodes:
  "validateBatch two_probes [''1.2.3.4:8080'', ''5.6.7.8:3128''] 50 =
     Some [\<lparr>node_id = ''1.2.3.4:8080'', ip = ''1.2.3.4'', port = Fin 8080, protocol = ''http'',
             status = ACTIVE, latency = Some 120, fail_count = 0,
             last_tested = ''2026-01-01T00:00:00.000Z''\<rparr>,
           \<lparr>node_id = ''5.6.7.8:3128'', ip = ''5.6.7.8'', port = Fin 3128, protocol = ''http'',
             status = DEAD, latency = None, fail_count = 1,
             last_tested = ''2026-01-01T00:00:00.000Z''\<rparr>]"
proof -
  have "map (\<lambda>(k, proxyStr). check_proxy (probe two_probes k) (tested_at two_probes k) proxyStr)
          (enumerate 0 [''1.2.3.4:8080'', ''5.6.7.8:3128'']) =
        [\<lparr>node_id = ''1.2.3.4:8080'', ip = ''1.2.3.4'', port = Fin 8080, protocol = ''http'',
             status = ACTIVE, latency = Some 120, fail_count = 0,
             last_tested = ''2026-01-01T00:00:00.000Z''\<rparr>,
           \<lparr>node_id = ''5.6.7.8:3128'', ip = ''5.6.7.8'', port = Fin 3128, protocol = ''http'',
             status = DEAD, latency = None, fail_count = 1,
             last_tested = ''2026-01-01T00:00:00.000Z''\<rparr>]"
    by code_simp
  then show ?thesis by (simp add: validateBatch_total)
qed

text \<open>With concurrency 0 and something to validate, the loop never returns.\<close>

lemma validateBatch_from_zero:
  assumes "validateBatch_from w proxies c i results = Some y"
  shows "\<not> (c = 0 \<and> i < length proxies)"
proof (rule validateBatch_from.raw_induct
    [where P = "\<lambda>w proxies c i results y. \<not> (c = 0 \<and> i < length proxies)", OF _ assms])
  fix f :: "probe_world \<Rightarrow> string list \<Rightarrow> nat \<Rightarrow> nat \<Rightarrow> ProxyNode list \<Rightarrow> ProxyNode list option"
  fix w proxies c i results y
  assume ih: "\<And>w proxies c i results y. f w proxies c i results = Some y \<Longrightarrow>
      \<not> (c = 0 \<and> i < length proxies)"
  assume step: "(if i < length proxies then
        (let chunk = take c (drop i proxies);
             chunkResults =
               map (\<lambda>(k, proxyStr). check_proxy (probe w k) (tested_at w k) proxyStr)
                 (enumerate i chunk)
         in f w proxies c (i + c) (results @ chunkResults))
      else Some results) = Some y"
  show "\<not> (c = 0 \<and> i < length proxies)"
  proof
    assume z: "c = 0 \<and> i < length proxies"
    with step have "f w proxies 0 i (results @ []) = Some y" by (simp add: Let_def)
    from ih [OF this] z show False by simp
  qed
qed

lemma validateBatch_zero: "proxies \<noteq> [] \<Longrightarrow> validateBatch w proxies 0 = None"
  using validateBatch_from_zero [of w proxies 0 0 "[]"]
  by (cases "validateBatch w proxies 0") (auto simp: validateBatch_def)

lemma optimal_query_none:
  "\<forall>n \<in> set rows. status n \<noteq> ACTIVE \<Longrightarrow> getOptimalProxy (optimal_query rows) = None"
proof -
  assume "\<forall>n \<in> set rows. status n \<noteq> ACTIVE"
  then have "filter (\<lambda>n. status n = ACTIVE) rows = []" by (simp add: filter_empty_conv)
  then show ?thesis
    by (simp add: getOptimalProxy_def optimal_query_def single_def limit_def order_latency_def
        eq_status_def)
qed

lemma optimal_query_some:
  assumes "\<exists>n \<in> set rows. status n = ACTIVE"
  shows "\<exists>n. getOptimalProxy (optimal_query rows) = Some n \<and> n \<in> set rows \<and> status n = ACTIVE \<and>
           (\<forall>m \<in> set rows. status m = ACTIVE \<longrightarrow> latency_key n \<le> latency_key m)"
proof -
  let ?act = "filter (\<lambda>n. status n = ACTIVE) rows"
  let ?ord = "sort_key latency_key ?act"
  from assms have "?act \<noteq> []" by (simp add: filter_empty_conv)
  then have "?ord \<noteq> []" by (metis length_0_conv length_sort)
  then obtain y ys where ord: "?ord = y # ys" by (cases ?ord) auto
  have "y \<in> set ?ord" using ord by simp
  then have y: "y \<in> set rows" "status y = ACTIVE" by auto
  have "sorted (map latency_key ?ord)" by (rule sorted_sort_key)
  with ord have "\<forall>m \<in> set ys. latency_key y \<le> latency_key m" by simp
  moreover have "set rows \<inter> {m. status m = ACTIVE} = set ?ord" by auto
  ultimately have least: "\<forall>m \<in> set rows. status m = ACTIVE \<longrightarrow> latency_key y \<le> latency_key m"
    using ord by auto
  have "getOptimalProxy (optimal_query rows) = Some y"
    using ord
    by (simp add: getOptimalProxy_def optimal_query_def single_def limit_def order_latency_def
        eq_status_def)
  with y least show ?thesis by blast
qed

lemma latency_key_le:
  "latency_key n \<le> latency_key m \<Longrightarrow> latency m = Some l \<Longrightarrow> \<exists>l0. latency n = Some l0 \<and> l0 \<le> l"
  by (cases "latency n") (auto simp: latency_key_def less_eq_prod_def)

text \<open>
  Claim C6. On the answer of the store to its query over the rows of the table,
  \<open>getOptimalProxy\<close> returns none exactly when no row is ACTIVE; otherwise it returns
  an ACTIVE row of the table whose latency is lowest among the ACTIVE rows. Over the
  all-ACTIVE fleet with latencies 50, 20 and 80 it returns the 20 ms node, over an
  all-DEAD fleet none.
\<close>

theorem getOptimalProxy_lowest_latency:
  "(getOptimalProxy (optimal_query rows) = None \<longleftrightarrow> (\<forall>n \<in> set rows. status n \<noteq> ACTIVE)) \<and>
   (\<forall>n. getOptimalProxy (optimal_query rows) = Some n \<longrightarrow>
      n \<in> set rows \<and> status n = ACTIVE \<and>
      (\<forall>m \<in> set rows. \<forall>l. status m = ACTIVE \<and> latency m = Some l \<longrightarrow>
         (\<exists>l0. latency n = Some l0 \<and> l0 \<le> l)))"
proof (cases "\<exists>n \<in> set rows. status n = ACTIVE")
  case True
  from optimal_query_some [OF True] obtain y where
    y: "getOptimalProxy (optimal_query rows) = Some y" "y \<in> set rows" "status y = ACTIVE"
    "\<forall>m \<in> set rows. status m = ACTIVE \<longrightarrow> latency_key y \<le> latency_key m" by blast
  have "\<exists>l0. latency y = Some l0 \<and> l0 \<le> l"
    if "m \<in> set rows" "status m = ACTIVE" "latency m = Some l" for m l
    using latency_key_le [of y m l] y(4) that by blast
  with y True show ?thesis by auto
next
  case False
  then have "getOptimalProxy (optimal_query rows) = None" using optimal_query_none by blast
  with False show ?thesis by auto
qed

lemma active_fleet_best:
  "getOptimalProxy (optimal_query active_fleet) = Some (fleet_node ''10.0.0.2'' ACTIVE (Some 20))"
  by (simp add: getOptimalProxy_def optimal_query_def single_def limit_def order_latency_def
      eq_status_def active_fleet_def fleet_node_def latency_key_def sort_key_def insort_key.simps
      less_eq_prod_def)

lemma dead_fleet_none: "getOptimalProxy (optimal_query dead_fleet) = None"
  by (simp add: getOptimalProxy_def optimal_query_def single_def limit_def order_latency_def
      eq_status_def dead_fleet_def fleet_node_def)

theorem getOptimalProxy_lowest_latency_witness:
  "getOptimalProxy (optimal_query active_fleet) = Some (fleet_node ''10.0.0.2'' ACTIVE (Some 20)) \<and>
   latency (fleet_node ''10.0.0.2'' ACTIVE (Some 20)) = Some 20 \<and>
   map latency active_fleet = [Some 50, Some 20, Some 80] \<and>
   map status active_fleet = [ACTIVE, ACTIVE, ACTIVE] \<and>
   map status dead_fleet = [DEAD, DEAD, DEAD] \<and>
   getOptimalProxy (optimal_query dead_fleet) = None"
proof -
  have d: "\<forall>n \<in> set dead_fleet. status n \<noteq> ACTIVE"
    by (simp add: dead_fleet_def fleet_node_def)
  from getOptimalProxy_lowest_latency [of dead_fleet, THEN conjunct1] d
  have "getOptimalProxy (optimal_query dead_fleet) = None" by blast
  moreover have "map latency active_fleet = [Some 50, Some 20, Some 80]"
    "map status active_fleet = [ACTIVE, ACTIVE, ACTIVE]" "map status dead_fleet = [DEAD, DEAD, DEAD]"
    "latency (fleet_node ''10.0.0.2'' ACTIVE (Some 20)) = Some 20"
    by (simp_all add: active_fleet_def dead_fleet_def fleet_node_def)
  ultimately show ?thesis using active_fleet_best by simp
qed

section \<open>The harvest\<close>

lemma lang_repeat_0: "lang (Repeat r m 0) = (if m = 0 then {[]} else {})"
  by auto

lemma UN_upto_Suc:
  "(\<Union>k \<in> {m..Suc n}. P k) = (\<Union>k \<in> {m - 1..n}. P (Suc k)) \<union> (if m = 0 then P 0 else {})"
proof (rule set_eqI, rule iffI)
  fix x
  assume "x \<in> (\<Union>k \<in> {m..Suc n}. P k)"
  then obtain k where k: "m \<le> k" "k \<le> Suc n" "x \<in> P k" by auto
  show "x \<in> (\<Union>k \<in> {m - 1..n}. P (Suc k)) \<union> (if m = 0 then P 0 else {})"
  proof (cases k)
    case 0
    with k show ?thesis by simp
  next
    case (Suc j)
    with k have "j \<in> {m - 1..n}" "x \<in> P (Suc j)" by auto
    then show ?thesis by blast
  qed
next
  fix x
  assume "x \<in> (\<Union>k \<in> {m - 1..n}. P (Suc k)) \<union> (if m = 0 then P 0 else {})"
  then consider j where "j \<in> {m - 1..n}" "x \<in> P (Suc j)" | "m = 0" "x \<in> P 0"
    by (auto split: if_splits)
  then show "x \<in> (\<Union>k \<in> {m..Suc n}. P k)"
  proof cases
    case 1
    then have "Suc j \<in> {m..Suc n}" by auto
    with 1 show ?thesis by blast
  next
    case 2
    then have "0 \<in> {m..Suc n}" by simp
    with 2 show ?thesis by blast
  qed
qed

lemma lang_repeat_Suc:
  "lang (Repeat r m (Suc n)) =
     {u @ v | u v. u \<in> lang r \<and> v \<in> lang (Repeat r (m - 1) n)} \<union> (if m = 0 then {[]} else {})"
proof -
  have "lang (Repeat r m (Suc n)) = (\<Union>k \<in> {m..Suc n}. lang_pow (lang r) k)" by simp
  also have "\<dots> = (\<Union>k \<in> {m - 1..n}. lang_pow (lang r) (Suc k)) \<union>
      (if m = 0 then lang_pow (lang r) 0 else {})"
    by (rule UN_upto_Suc)
  also have "(\<Union>k \<in> {m - 1..n}. lang_pow (lang r) (Suc k)) =
      {u @ v | u v. u \<in> lang r \<and> v \<in> lang (Repeat r (m - 1) n)}"
    by auto
  finally show ?thesis by simp
qed

lemma seq_remainders:
  "(\<Union>x \<in> {v. \<exists>u \<in> A. s = u @ v}. {v. \<exists>u \<in> B. x = u @ v}) =
   {v. \<exists>u \<in> {a @ b | a b. a \<in> A \<and> b \<in> B}. s = u @ v}"
proof (rule set_eqI)
  fix v
  show "v \<in> (\<Union>x \<in> {v. \<exists>u \<in> A. s = u @ v}. {v. \<exists>u \<in> B. x = u @ v}) \<longleftrightarrow>
        v \<in> {v. \<exists>u \<in> {a @ b | a b. a \<in> A \<and> b \<in> B}. s = u @ v}"
  proof
    assume "v \<in> (\<Union>x \<in> {v. \<exists>u \<in> A. s = u @ v}. {v. \<exists>u \<in> B. x = u @ v})"
    then obtain a b where "a \<in> A" "b \<in> B" "s = a @ b @ v" by auto
    then have "a @ b \<in> {a @ b | a b. a \<in> A \<and> b \<in> B}" "s = (a @ b) @ v" by auto
    then show "v \<in> {v. \<exists>u \<in> {a @ b | a b. a \<in> A \<and> b \<in> B}. s = u @ v}" by blast
  next
    assume "v \<in> {v. \<exists>u \<in> {a @ b | a b. a \<in> A \<and> b \<in> B}. s = u @ v}"
    then obtain a b where ab: "a \<in> A" "b \<in> B" "s = (a @ b) @ v" by auto
    then have "b @ v \<in> {v. \<exists>u \<in> A. s = u @ v}" "v \<in> {w. \<exists>u \<in> B. b @ v = u @ w}" by auto
    then show "v \<in> (\<Union>x \<in> {v. \<exists>u \<in> A. s = u @ v}. {v. \<exists>u \<in> B. x = u @ v})" by blast
  qed
qed

lemma match_rx_lang: "set (match_rx r s) = {v. \<exists>u \<in> lang r. s = u @ v}"
proof (induction r s rule: match_rx.induct)
  case (1 s)
  show ?case by (cases s) auto
next
  case (2 a s)
  show ?case by (cases s) auto
next
  case (3 r1 r2 s)
  have "set (match_rx (Seq r1 r2) s) = (\<Union>x \<in> set (match_rx r1 s). set (match_rx r2 x))" by simp
  also have "\<dots> = (\<Union>x \<in> {v. \<exists>u \<in> lang r1. s = u @ v}. {v. \<exists>u \<in> lang r2. x = u @ v})"
    using "3.IH" by simp
  also have "\<dots> = {v. \<exists>u \<in> lang (Seq r1 r2). s = u @ v}"
    by (simp only: seq_remainders lang.simps)
  finally show ?case .
next
  case (4 r m s)
  show ?case by (simp del: lang.simps add: lang_repeat_0)
next
  case (5 r m n s)
  have "set (match_rx (Repeat r m (Suc n)) s) =
      (\<Union>x \<in> set (match_rx r s). set (match_rx (Repeat r (m - 1) n) x)) \<union> (if m = 0 then {s} else {})"
    by simp
  also have "\<dots> = (\<Union>x \<in> {v. \<exists>u \<in> lang r. s = u @ v}. {v. \<exists>u \<in> lang (Repeat r (m - 1) n). x = u @ v})
      \<union> (if m = 0 then {s} else {})"
    using "5.IH" by (simp del: lang.simps)
  also have "\<dots> = {v. \<exists>u \<in> {a @ b | a b. a \<in> lang r \<and> b \<in> lang (Repeat r (m - 1) n)}. s = u @ v}
      \<union> (if m = 0 then {s} else {})"
    by (simp only: seq_remainders)
  also have "\<dots> = {v. \<exists>u \<in> lang (Repeat r m (Suc n)). s = u @ v}"
    unfolding lang_repeat_Suc by (cases "m = 0") (auto simp del: lang.simps)
  finally show ?case .
qed

lemma regex_test_lang: "regex_test r s \<longleftrightarrow> s \<in> lang r"
  by (simp add: regex_test_def match_rx_lang)

lemma in_lang_Digit: "x \<in> lang Digit \<longleftrightarrow> (\<exists>c. x = [c] \<and> is_digit c)"
  by auto

lemma in_lang_pow_Suc:
  "x \<in> lang_pow L (Suc k) \<longleftrightarrow> (\<exists>u v. x = u @ v \<and> u \<in> L \<and> v \<in> lang_pow L k)"
  by auto

lemma digits_pow_mem:
  "a \<in> lang_pow (lang Digit) k \<longleftrightarrow> length a = k \<and> (\<forall>c \<in> set a. is_digit c)"
proof (induction k arbitrary: a)
  case 0
  show ?case by auto
next
  case (Suc k)
  show ?case
  proof (cases a)
    case Nil
    then show ?thesis by (simp only: in_lang_pow_Suc in_lang_Digit) auto
  next
    case (Cons c v)
    have "a \<in> lang_pow (lang Digit) (Suc k) \<longleftrightarrow> is_digit c \<and> v \<in> lang_pow (lang Digit) k"
    proof
      assume "a \<in> lang_pow (lang Digit) (Suc k)"
      then obtain u w d where "a = u @ w" "u = [d]" "is_digit d" "w \<in> lang_pow (lang Digit) k"
        unfolding in_lang_pow_Suc in_lang_Digit by blast
      with Cons show "is_digit c \<and> v \<in> lang_pow (lang Digit) k" by simp
    next
      assume "is_digit c \<and> v \<in> lang_pow (lang Digit) k"
      then have "a = [c] @ v \<and> [c] \<in> lang Digit \<and> v \<in> lang_pow (lang Digit) k"
        using Cons by (simp add: in_lang_Digit del: lang.simps)
      then show "a \<in> lang_pow (lang Digit) (Suc k)"
        unfolding in_lang_pow_Suc by blast
    qed
    then show ?thesis using Suc [of v] Cons by auto
  qed
qed


lemma lang_digits_mem:
  "a \<in> lang (Repeat Digit m n) \<longleftrightarrow> m \<le> length a \<and> length a \<le> n \<and> (\<forall>c \<in> set a. is_digit c)"
proof -
  have "a \<in> lang (Repeat Digit m n) \<longleftrightarrow> (\<exists>k \<in> {m..n}. a \<in> lang_pow (lang Digit) k)"
    by (simp del: lang.simps(1))
  then show ?thesis unfolding digits_pow_mem by auto
qed

lemma in_lang_Seq: "x \<in> lang (Seq r1 r2) \<longleftrightarrow> (\<exists>u v. x = u @ v \<and> u \<in> lang r1 \<and> v \<in> lang r2)"
  by auto

lemma in_lang_Lit: "x \<in> lang (Lit a) \<longleftrightarrow> x = [a]"
  by simp

lemma in_lang_pow_3:
  "x \<in> lang_pow L 3 \<longleftrightarrow> (\<exists>u v w. x = u @ v @ w \<and> u \<in> L \<and> v \<in> L \<and> w \<in> L)"
proof -
  have "x \<in> lang_pow L (Suc (Suc (Suc 0))) \<longleftrightarrow> (\<exists>u v w. x = u @ v @ w \<and> u \<in> L \<and> v \<in> L \<and> w \<in> L)"
    unfolding in_lang_pow_Suc by auto
  then show ?thesis by (simp only: numeral_3_eq_3)
qed

lemma in_lang_repeat_3: "x \<in> lang (Repeat r 3 3) \<longleftrightarrow> x \<in> lang_pow (lang r) 3"
  by simp

lemma in_lang_octet_dot:
  "x \<in> lang (Seq (Repeat Digit 1 3) (Lit CHR ''.'')) \<longleftrightarrow> (\<exists>a. x = a @ ''.'' \<and> octet a)"
  unfolding in_lang_Seq lang_digits_mem in_lang_Lit octet_def by auto

lemma lang_proxyRegex: "s \<in> lang proxyRegex \<longleftrightarrow> ip_port_pattern s"
proof
  assume "s \<in> lang proxyRegex"
  then obtain h t where s: "s = h @ t"
    and h: "h \<in> lang (Repeat (Seq (Repeat Digit 1 3) (Lit CHR ''.'')) 3 3)"
    and t: "t \<in> lang (Seq (Repeat Digit 1 3) (Seq (Lit CHR '':'') (Repeat Digit 2 5)))"
    unfolding proxyRegex_def in_lang_Seq [of s] by blast
  from h obtain x y z where h': "h = x @ y @ z"
    and x: "x \<in> lang (Seq (Repeat Digit 1 3) (Lit CHR ''.''))"
    and y: "y \<in> lang (Seq (Repeat Digit 1 3) (Lit CHR ''.''))"
    and z: "z \<in> lang (Seq (Repeat Digit 1 3) (Lit CHR ''.''))"
    unfolding in_lang_repeat_3 in_lang_pow_3 by blast
  from x y z obtain a b c where abc: "x = a @ ''.''" "y = b @ ''.''" "z = c @ ''.''"
    "octet a" "octet b" "octet c"
    unfolding in_lang_octet_dot by blast
  from t obtain d q where t': "t = d @ q" and d: "d \<in> lang (Repeat Digit 1 3)"
    and q: "q \<in> lang (Seq (Lit CHR '':'') (Repeat Digit 2 5))"
    unfolding in_lang_Seq [of t] by blast
  from q obtain p where p: "q = '':'' @ p" "p \<in> lang (Repeat Digit 2 5)"
    unfolding in_lang_Seq [of q] in_lang_Lit by blast
  have od: "octet d" using d unfolding lang_digits_mem octet_def by simp
  have pp: "2 \<le> length p" "length p \<le> 5" "\<forall>ch \<in> set p. is_digit ch"
    using p(2) unfolding lang_digits_mem by simp_all
  have "s = a @ ''.'' @ b @ ''.'' @ c @ ''.'' @ d @ '':'' @ p"
    using s h' abc t' p(1) by simp
  with abc od pp show "ip_port_pattern s" unfolding ip_port_pattern_def by blast
next
  assume "ip_port_pattern s"
  then obtain a b c d p where s: "s = a @ ''.'' @ b @ ''.'' @ c @ ''.'' @ d @ '':'' @ p"
    and o: "octet a" "octet b" "octet c" "octet d"
    and p: "2 \<le> length p" "length p \<le> 5" "\<forall>ch \<in> set p. is_digit ch"
    unfolding ip_port_pattern_def by blast
  have x: "a @ ''.'' \<in> lang (Seq (Repeat Digit 1 3) (Lit CHR ''.''))"
    "b @ ''.'' \<in> lang (Seq (Repeat Digit 1 3) (Lit CHR ''.''))"
    "c @ ''.'' \<in> lang (Seq (Repeat Digit 1 3) (Lit CHR ''.''))"
    unfolding in_lang_octet_dot using o by blast+
  then have h: "(a @ ''.'') @ (b @ ''.'') @ (c @ ''.'') \<in> lang (Repeat (Seq (Repeat Digit 1 3) (Lit CHR ''.'')) 3 3)"
    unfolding in_lang_repeat_3 in_lang_pow_3 by blast
  have "p \<in> lang (Repeat Digit 2 5)" "d \<in> lang (Repeat Digit 1 3)"
    unfolding lang_digits_mem using p o(4) by (simp_all add: octet_def)
  moreover have "'':'' \<in> lang (Lit CHR '':'')" by simp
  ultimately have "'':'' @ p \<in> lang (Seq (Lit CHR '':'') (Repeat Digit 2 5))"
    and dd: "d \<in> lang (Repeat Digit 1 3)"
    unfolding in_lang_Seq [of "'':'' @ p"] by blast+
  then have t: "d @ '':'' @ p \<in> lang (Seq (Repeat Digit 1 3) (Seq (Lit CHR '':'') (Repeat Digit 2 5)))"
    unfolding in_lang_Seq [of "d @ '':'' @ p"] by blast
  have "s = ((a @ ''.'') @ (b @ ''.'') @ (c @ ''.'')) @ (d @ '':'' @ p)" using s by simp
  with h t show "s \<in> lang proxyRegex"
    unfolding proxyRegex_def in_lang_Seq [of s] by blast
qed

lemma proxyRegex_pattern: "regex_test proxyRegex s \<longleftrightarrow> ip_port_pattern s"
  by (simp only: regex_test_lang lang_proxyRegex)

lemma set_add_set: "set (set_add acc x) = insert x (set acc)"
  by (auto simp: set_add_def)

lemma set_add_distinct: "distinct acc \<Longrightarrow> distinct (set_add acc x)"
  by (simp add: set_add_def)

lemma add_lines_set:
  "set (foldl add_line acc ls) =
     set acc \<union> {trim l | l. l \<in> set ls \<and> regex_test proxyRegex (trim l)}"
  by (induction ls arbitrary: acc) (auto simp: add_line_def Let_def set_add_set)

lemma add_lines_distinct: "distinct acc \<Longrightarrow> distinct (foldl add_line acc ls)"
  by (induction ls arbitrary: acc) (auto simp: add_line_def Let_def set_add_distinct)

lemma scrape_source_simps:
  "scrape_source acc SourceFailed = acc"
  "scrape_source acc (Fetched body) = foldl add_line acc (split_on CHR 0x0A body)"
  by (simp_all add: scrape_source_def)

lemma scrape_sources_set:
  "set (foldl scrape_source acc rs) =
     set acc \<union> {trim l | l body. Fetched body \<in> set rs \<and> l \<in> set (split_on CHR 0x0A body) \<and>
                    regex_test proxyRegex (trim l)}"
proof (induction rs arbitrary: acc)
  case Nil
  show ?case by simp
next
  case (Cons r rs)
  show ?case
  proof (cases r)
    case SourceFailed
    then show ?thesis using Cons [of acc] by (auto simp: scrape_source_simps)
  next
    case (Fetched body)
    have "set (foldl scrape_source acc (r # rs)) =
        set (foldl add_line acc (split_on CHR 0x0A body)) \<union>
        {trim l | l d. Fetched d \<in> set rs \<and> l \<in> set (split_on CHR 0x0A d) \<and>
                    regex_test proxyRegex (trim l)}"
      using Cons [of "foldl add_line acc (split_on CHR 0x0A body)"] Fetched
      by (simp add: scrape_source_simps)
    then show ?thesis unfolding add_lines_set using Fetched by auto
  qed
qed

lemma scrape_source_distinct: "distinct acc \<Longrightarrow> distinct (scrape_source acc r)"
  by (cases r) (simp_all add: scrape_source_simps add_lines_distinct)

lemma scrape_sources_distinct: "distinct acc \<Longrightarrow> distinct (foldl scrape_source acc rs)"
  by (induction rs arbitrary: acc) (simp_all add: scrape_source_distinct)

text \<open>
  Claim C7. Whatever the sources answer, \<open>scrapeSources\<close> returns exactly the trimmed
  lines of the fetched lists that match the pattern (four dot-separated octets of 1 to 3
  digits, a colon, a port of 2 to 5 digits), each once; every other line is dropped. The
  octets are not bounded by 255: "999.1.1.1:80" matches and is returned when a list has it.
\<close>

theorem scrapeSources_pattern_only:
  "set (scrapeSources responses) =
     {trim l | l body. Fetched body \<in> set responses \<and> l \<in> set (split_on CHR 0x0A body) \<and>
                  ip_port_pattern (trim l)} \<and>
   distinct (scrapeSources responses) \<and>
   ip_port_pattern ''999.1.1.1:80'' \<and>
   (Fetched body \<in> set responses \<and> l \<in> set (split_on CHR 0x0A body) \<and> trim l = ''999.1.1.1:80'' \<longrightarrow>
      ''999.1.1.1:80'' \<in> set (scrapeSources responses))"
proof -
  have a: "set (scrapeSources responses) =
     {trim l | l body. Fetched body \<in> set responses \<and> l \<in> set (split_on CHR 0x0A body) \<and>
                  ip_port_pattern (trim l)}"
    unfolding scrapeSources_def scrape_sources_set proxyRegex_pattern by simp
  have b: "distinct (scrapeSources responses)"
    by (simp add: scrapeSources_def scrape_sources_distinct)
  have "regex_test proxyRegex ''999.1.1.1:80''" by code_simp
  then have c: "ip_port_pattern ''999.1.1.1:80''" by (simp only: proxyRegex_pattern)
  have d: "''999.1.1.1:80'' \<in> set (scrapeSources responses)"
    if "Fetched body \<in> set responses" "l \<in> set (split_on CHR 0x0A body)" "trim l = ''999.1.1.1:80''"
    unfolding a using that c by force
  from a b c d show ?thesis by blast
qed

lemma sample_scrape:
  "scrapeSources [SourceFailed, Fetched sample_list, Fetched ''10.0.0.1:8080''] =
     [''999.1.1.1:80'', ''10.0.0.1:8080'']"
  by code_simp

theorem scrapeSources_pattern_only_witness:
  "Fetched sample_list \<in> set [SourceFailed, Fetched sample_list, Fetched ''10.0.0.1:8080''] \<and>
   ''999.1.1.1:80'' \<in> set (split_on CHR 0x0A sample_list) \<and>
   trim ''999.1.1.1:80'' = ''999.1.1.1:80'' \<and>
   ''999.1.1.1:80'' \<in> set (scrapeSources [SourceFailed, Fetched sample_list, Fetched ''10.0.0.1:8080'']) \<and>
   scrapeSources [SourceFailed, Fetched sample_list, Fetched ''10.0.0.1:8080''] =
     [''999.1.1.1:80'', ''10.0.0.1:8080'']"
proof -
  have h: "Fetched sample_list \<in> set [SourceFailed, Fetched sample_list, Fetched ''10.0.0.1:8080'']"
    by simp
  have l: "''999.1.1.1:80'' \<in> set (split_on CHR 0x0A sample_list)" by code_simp
  have t: "trim ''999.1.1.1:80'' = ''999.1.1.1:80''" by code_simp
  from scrapeSources_pattern_only
    [of "[SourceFailed, Fetched sample_list, Fetched ''10.0.0.1:8080'']" sample_list "''999.1.1.1:80''"]
    h l t
  have "''999.1.1.1:80'' \<in> set (scrapeSources [SourceFailed, Fetched sample_list, Fetched ''10.0.0.1:8080''])"
    by blast
  with h l t sample_scrape show ?thesis by blast
qed

section \<open>Condition score\<close>

text \<open>
  Claim C8. For every input string, \<open>calculateCondition\<close> returns 5 if the lower-cased
  input contains "new" or "mint", otherwise 4 if it contains "excellent", otherwise 3 if
  it contains "good" or "used", otherwise 2 if it contains "fair" or "parts", otherwise 1;
  the checks are applied in that order, so the score is always between 1 and 5.
\<close>

theorem calculateCondition_ordered_keywords:
  "calculateCondition s =
     (if contains (toLowerCase s) ''new'' \<or> contains (toLowerCase s) ''mint'' then 5
      else if contains (toLowerCase s) ''excellent'' then 4
      else if contains (toLowerCase s) ''good'' \<or> contains (toLowerCase s) ''used'' then 3
      else if contains (toLowerCase s) ''fair'' \<or> contains (toLowerCase s) ''parts'' then 2
      else 1)"
  by (simp add: calculateCondition_def Let_def includes_contains)

theorem calculateCondition_ordered_keywords_witness:
  "contains (toLowerCase ''Excellent, used'') ''excellent'' \<and>
   contains (toLowerCase ''Excellent, used'') ''used'' \<and>
   calculateCondition ''Excellent, used'' = 4 \<and>
   calculateCondition ''Brand New'' = 5 \<and> calculateCondition ''For PARTS'' = 2 \<and>
   calculateCondition ''Vintage'' = 1"
proof -
  have x: "\<not> contains (toLowerCase ''Excellent, used'') ''new''"
    "\<not> contains (toLowerCase ''Excellent, used'') ''mint''"
    "contains (toLowerCase ''Excellent, used'') ''excellent''"
    "contains (toLowerCase ''Excellent, used'') ''used''"
    unfolding includes_contains [symmetric] by code_simp+
  have n: "contains (toLowerCase ''Brand New'') ''new''"
    unfolding includes_contains [symmetric] by code_simp
  have p: "\<not> contains (toLowerCase ''For PARTS'') ''new''"
    "\<not> contains (toLowerCase ''For PARTS'') ''mint''"
    "\<not> contains (toLowerCase ''For PARTS'') ''excellent''"
    "\<not> contains (toLowerCase ''For PARTS'') ''good''"
    "\<not> contains (toLowerCase ''For PARTS'') ''used''"
    "contains (toLowerCase ''For PARTS'') ''parts''"
    unfolding includes_contains [symmetric] by code_simp+
  have v: "\<not> contains (toLowerCase ''Vintage'') ''new''"
    "\<not> contains (toLowerCase ''Vintage'') ''mint''"
    "\<not> contains (toLowerCase ''Vintage'') ''excellent''"
    "\<not> contains (toLowerCase ''Vintage'') ''good''"
    "\<not> contains (toLowerCase ''Vintage'') ''used''"
    "\<not> contains (toLowerCase ''Vintage'') ''fair''"
    "\<not> contains (toLowerCase ''Vintage'') ''parts''"
    unfolding includes_contains [symmetric] by code_simp+
  show ?thesis
    using calculateCondition_ordered_keywords [of "''Excellent, used''"]
      calculateCondition_ordered_keywords [of "''Brand New''"]
      calculateCondition_ordered_keywords [of "''For PARTS''"]
      calculateCondition_ordered_keywords [of "''Vintage''"] x n p v
    by simp
qed

end
